theory Spec2Isabelle
  imports Main "HOL-Library.Word"
begin

section \<open>JavaScript strings\<close>

text \<open>
  A JavaScript string is a sequence of UTF-16 code units, and \<open>length\<close>, \<open>slice\<close>,
  \<open>indexOf\<close> and \<open>lastIndexOf\<close> count code units. The texts the program processes are
  lists of 16-bit words. The fixed ASCII messages the program builds (error messages, toast
  descriptions) are kept as HOL strings.
\<close>

type_synonym jschar = "16 word"
type_synonym jsstring = "jschar list"

definition js :: "string \<Rightarrow> jsstring" where
  "js s = map of_char s"

definition period_char :: jschar where
  "period_char = 0x2E"

definition space_char :: jschar where
  "space_char = 0x20"

text \<open>
  The class \<open>\s\<close> of a regular expression and the characters removed by \<open>trim()\<close> are the
  same set: ECMAScript's WhiteSpace and LineTerminator code points.
\<close>

definition isWhitespace :: "jschar \<Rightarrow> bool" where
  "isWhitespace c \<longleftrightarrow>
     c = 0x09 \<or> c = 0x0A \<or> c = 0x0B \<or> c = 0x0C \<or> c = 0x0D \<or> c = 0x20 \<or> c = 0xA0 \<or>
     c = 0x1680 \<or> (0x2000 \<le> c \<and> c \<le> 0x200A) \<or> c = 0x2028 \<or> c = 0x2029 \<or>
     c = 0x202F \<or> c = 0x205F \<or> c = 0x3000 \<or> c = 0xFEFF"

definition trim :: "jsstring \<Rightarrow> jsstring" where
  "trim s = rev (dropWhile isWhitespace (rev (dropWhile isWhitespace s)))"

text \<open>
  \<open>s.indexOf(c, pos)\<close> for a one-character search string: the least index \<open>k \<ge> max pos 0\<close>
  with \<open>s[k] = c\<close>, or \<open>-1\<close>.
\<close>

definition indexOf :: "jsstring \<Rightarrow> jschar \<Rightarrow> int \<Rightarrow> int" where
  "indexOf s c pos =
     (case List.find (\<lambda>k. s ! k = c) [nat (max pos 0) ..< length s] of
        None \<Rightarrow> - 1
      | Some k \<Rightarrow> int k)"

text \<open>
  \<open>s.lastIndexOf(c, pos)\<close> for a one-character search string: the greatest index
  \<open>k \<le> max pos 0\<close> inside the string with \<open>s[k] = c\<close>, or \<open>-1\<close>. The position itself is
  included in the search.
\<close>

definition lastIndexOf :: "jsstring \<Rightarrow> jschar \<Rightarrow> int \<Rightarrow> int" where
  "lastIndexOf s c pos =
     (case List.find (\<lambda>k. s ! k = c) (rev [0 ..< min (nat (max pos 0) + 1) (length s)]) of
        None \<Rightarrow> - 1
      | Some k \<Rightarrow> int k)"

text \<open>\<open>s.slice(a, b)\<close>: negative arguments count from the end, both are clamped.\<close>

definition slice :: "jsstring \<Rightarrow> int \<Rightarrow> int \<Rightarrow> jsstring" where
  "slice s a b =
     (let len = int (length s);
          from = (if a < 0 then max (len + a) 0 else min a len);
          to = (if b < 0 then max (len + b) 0 else min b len)
      in take (nat (to - from)) (drop (nat from) s))"

text \<open>
  \<open>text.replace(/\s{2,}/g, ' ')\<close>: scanning from the left, a position where two whitespace
  characters follow each other starts a match, which is greedy and takes the whole run; the
  run is replaced by one space. Any other character is copied.
\<close>

function replaceWhitespaceRuns :: "jsstring \<Rightarrow> jsstring" where
  "replaceWhitespaceRuns [] = []"
| "replaceWhitespaceRuns (c # cs) =
     (if isWhitespace c \<and> cs \<noteq> [] \<and> isWhitespace (hd cs)
      then space_char # replaceWhitespaceRuns (dropWhile isWhitespace cs)
      else c # replaceWhitespaceRuns cs)"
  by pat_completeness auto
termination
  by (relation "measure length") (auto simp: less_Suc_eq_le length_dropWhile_le)

text \<open>Decimal rendering of an integer, as a template literal \<open>${n}\<close> prints it.\<close>

fun decimal :: "nat \<Rightarrow> string" where
  "decimal n =
     (if n < 10 then [''0123456789'' ! n]
      else decimal (n div 10) @ [''0123456789'' ! (n mod 10)])"

definition show_int :: "int \<Rightarrow> string" where
  "show_int i = (if i < 0 then CHR ''-'' # decimal (nat (- i)) else decimal (nat i))"

section \<open>Text processing (src/lib/text-processing.ts)\<close>

text \<open>A thrown \<open>Error\<close> object, identified by its message.\<close>

datatype exn = JsError string

definition CHUNK_SIZE :: int where
  "CHUNK_SIZE = 4000"

definition removeExtraWhitespaces :: "jsstring \<Rightarrow> jsstring" where
  "removeExtraWhitespaces text = trim (replaceWhitespaceRuns text)"

text \<open>
  The body of the loop of \<open>splitTextIntoChunks\<close> up to the final value of \<open>endIndex\<close>
  (lines 73 to 93); a \<open>throw\<close> is \<open>Inl\<close>. \<open>maxChunkSize\<close> is an integer, so the test
  \<open>nextPeriodIndex - currentIndex > maxChunkSize * 1.5\<close> is written without fractions.
\<close>

definition splitEndIndex :: "jsstring \<Rightarrow> int \<Rightarrow> int \<Rightarrow> exn + int" where
  "splitEndIndex cleanedText maxChunkSize currentIndex =
     (let endIndex = currentIndex + maxChunkSize in
      if endIndex < int (length cleanedText) then
        (let periodIndex = lastIndexOf cleanedText period_char endIndex in
         if periodIndex > currentIndex then Inr (periodIndex + 1)
         else
           (let nextPeriodIndex = indexOf cleanedText period_char endIndex in
            if nextPeriodIndex = - 1 \<or> 2 * (nextPeriodIndex - currentIndex) > 3 * maxChunkSize
            then Inl (JsError (''Sentence exceeds chunk size limit of '' @ show_int maxChunkSize @
                   '' characters. Consider adding sentence breaks to your text.''))
            else Inr (nextPeriodIndex + 1)))
      else Inr endIndex)"

text \<open>
  The \<open>while\<close> loop of \<open>splitTextIntoChunks\<close>. The result \<open>None\<close> stands for a loop that
  never ends, \<open>Some (Inl e)\<close> for a thrown error and \<open>Some (Inr chunks)\<close> for the returned
  array.
\<close>

partial_function (option) splitLoop ::
  "jsstring \<Rightarrow> int \<Rightarrow> int \<Rightarrow> jsstring list \<Rightarrow> (exn + jsstring list) option" where
  "splitLoop cleanedText maxChunkSize currentIndex chunks =
     (if currentIndex < int (length cleanedText) then
        (case splitEndIndex cleanedText maxChunkSize currentIndex of
           Inl e \<Rightarrow> Some (Inl e)
         | Inr endIndex \<Rightarrow>
             (let chunk = trim (slice cleanedText currentIndex endIndex) in
              splitLoop cleanedText maxChunkSize endIndex
                (if chunk \<noteq> [] then chunks @ [chunk] else chunks)))
      else Some (Inr chunks))"

declare splitLoop.simps [code]

definition splitTextIntoChunks :: "jsstring \<Rightarrow> int \<Rightarrow> (exn + jsstring list) option" where
  "splitTextIntoChunks text maxChunkSize =
     splitLoop (removeExtraWhitespaces text) maxChunkSize 0 []"

text \<open>
  The generator \<open>chunkText\<close>, with the constant \<open>CHUNK_SIZE\<close> as its limit. Its result is
  the list of the chunks it yields and how it ends: \<open>None\<close> when it returns, \<open>Some e\<close> when
  it throws \<open>e\<close>.
\<close>

definition chunkEndIndex :: "jsstring \<Rightarrow> int \<Rightarrow> exn + int" where
  "chunkEndIndex normalizedText currentIndex =
     (let endIndex = currentIndex + CHUNK_SIZE in
      if endIndex < int (length normalizedText) then
        (let periodIndex = lastIndexOf normalizedText period_char endIndex in
         if periodIndex > currentIndex then Inr (periodIndex + 1)
         else
           (let nextPeriodIndex = indexOf normalizedText period_char endIndex in
            if nextPeriodIndex = - 1 \<or> nextPeriodIndex - currentIndex > CHUNK_SIZE
            then Inl (JsError ''Sentence exceeds chunk size limit of 4000 characters.'')
            else Inr (nextPeriodIndex + 1)))
      else Inr endIndex)"

partial_function (option) chunkLoop ::
  "jsstring \<Rightarrow> int \<Rightarrow> jsstring list \<Rightarrow> (jsstring list \<times> exn option) option" where
  "chunkLoop normalizedText currentIndex yielded =
     (if currentIndex < int (length normalizedText) then
        (case chunkEndIndex normalizedText currentIndex of
           Inl e \<Rightarrow> Some (yielded, Some e)
         | Inr endIndex \<Rightarrow>
             (let chunk = trim (slice normalizedText currentIndex endIndex) in
              chunkLoop normalizedText endIndex
                (if length chunk > 0 then yielded @ [chunk] else yielded)))
      else Some (yielded, None))"

declare chunkLoop.simps [code]

definition chunkText :: "jsstring \<Rightarrow> (jsstring list \<times> exn option) option" where
  "chunkText text = chunkLoop (removeExtraWhitespaces text) 0 []"

record validation =
  valid :: bool
  error :: "string option"

definition validateTextForTTS :: "jsstring \<Rightarrow> validation" where
  "validateTextForTTS text =
     (if text = [] \<or> length (trim text) = 0
      then \<lparr>valid = False, error = Some ''Text cannot be empty''\<rparr>
      else
        (let cleanedText = removeExtraWhitespaces text in
         if length cleanedText > 100000
         then \<lparr>valid = False, error = Some ''Text exceeds maximum length of 100,000 characters''\<rparr>
         else \<lparr>valid = True, error = None\<rparr>))"

text \<open>
  The end of the first sentence of a text: the index of its first period, or its length
  when it has no period.
\<close>

definition sentenceEnd :: "jsstring \<Rightarrow> nat" where
  "sentenceEnd s = length (takeWhile (\<lambda>c. c \<noteq> period_char) s)"

text \<open>
  Notions used to state the round trip of segmentation: \<open>chunks.join(sep)\<close>; the length of
  the longest run of characters that are neither whitespace nor a period; a text in which
  every period that is not its last character is followed by a space; a text without two
  adjacent whitespace characters.
\<close>

fun joinWith :: "jsstring \<Rightarrow> jsstring list \<Rightarrow> jsstring" where
  "joinWith sep [] = []"
| "joinWith sep [x] = x"
| "joinWith sep (x # y # ys) = x @ sep @ joinWith sep (y # ys)"

fun longestPlainRun :: "jsstring \<Rightarrow> nat \<Rightarrow> nat" where
  "longestPlainRun [] run = run"
| "longestPlainRun (c # cs) run =
     (if isWhitespace c \<or> c = period_char then max run (longestPlainRun cs 0)
      else longestPlainRun cs (Suc run))"

fun periodsSpaced :: "jsstring \<Rightarrow> bool" where
  "periodsSpaced (a # b # cs) = ((a = period_char \<longrightarrow> b = space_char) \<and> periodsSpaced (b # cs))"
| "periodsSpaced cs = True"

fun noDoubleWhitespace :: "jsstring \<Rightarrow> bool" where
  "noDoubleWhitespace (a # b # cs) =
     (\<not> (isWhitespace a \<and> isWhitespace b) \<and> noDoubleWhitespace (b # cs))"
| "noDoubleWhitespace cs = True"

section \<open>Audio utilities (src/lib/audio-utils.ts)\<close>

type_synonym bytes = "8 word list"

text \<open>\<open>new Blob(parts, { type })\<close>: the bytes of the parts in order, and the media type.\<close>

record blob =
  blobData :: bytes
  blobType :: string

text \<open>
  \<open>mergeAudioBuffers\<close>. For no buffer and for one buffer the function decides by itself
  (lines 139 to 146). For several buffers (lines 148 to 185) it decodes every buffer with
  one \<open>AudioContext\<close> of the browser, copies the samples and encodes them with lamejs; each
  of these steps can throw. What these lines give, a blob or a thrown error, is the
  parameter \<open>decodeMergeEncode\<close>.
\<close>

definition mergeAudioBuffers :: "(bytes list \<Rightarrow> exn + blob) \<Rightarrow> bytes list \<Rightarrow> exn + blob" where
  "mergeAudioBuffers decodeMergeEncode buffers =
     (if length buffers = 0 then Inl (JsError ''No audio buffers to merge'')
      else if length buffers = 1 then Inr \<lparr>blobData = buffers ! 0, blobType = ''audio/mp3''\<rparr>
      else decodeMergeEncode buffers)"

definition concatenateBuffers :: "bytes list \<Rightarrow> blob" where
  "concatenateBuffers buffers = \<lparr>blobData = concat buffers, blobType = ''audio/mp3''\<rparr>"

section \<open>The hook useTTS (src/hooks/useTTS.ts)\<close>

text \<open>
  The outcome of one \<open>axios.post\<close>: the body of a successful response, an \<open>AxiosError\<close>
  with the status of its response if it has one, or any other thrown value.
\<close>

datatype response = Ok bytes | AxiosError "nat option" | OtherError

record toast =
  title :: string
  description :: string
  variant :: "string option"

text \<open>
  \<open>sendTextForTTS\<close> gives the audio data or \<open>null\<close> (here \<open>None\<close>), and the toasts it shows.
  The first argument is the outcome of its request.
\<close>

definition sendTextForTTS :: "response \<Rightarrow> jsstring \<Rightarrow> nat \<Rightarrow> bytes option \<times> toast list" where
  "sendTextForTTS outcome text chunkIndex =
     (case outcome of
        Ok data \<Rightarrow> (Some data, [])
      | AxiosError status \<Rightarrow>
          (let message =
             (if status = Some 401 then ''Invalid API key. Please check your OpenAI API key.''
              else if status = Some 429 then ''Rate limit exceeded. Please try again later.''
              else if status = Some 500 then ''OpenAI service error. Please try again later.''
              else ''Failed to generate speech.'')
           in (None, [\<lparr>title = ''Error'', description = message,
                        variant = Some ''destructive''\<rparr>]))
      | OtherError \<Rightarrow>
          (None, [\<lparr>title = ''Error'',
                    description = ''An unexpected error occurred while generating speech.'',
                    variant = Some ''destructive''\<rparr>]))"

text \<open>
  The handler \<open>onDownloadProgress\<close> of the request (the version of the hook that reports
  download progress). A progress event carries the bytes loaded and, when the response
  declares it, the total. The handler reports at most one number to \<open>onProgress\<close>.

  \<open>round_quotient ieee a b\<close> is \<open>Math.round(a / b)\<close> for two natural numbers. The code
  divides in IEEE double precision and rounds the double. A division by zero gives
  \<open>Infinity\<close> or \<open>NaN\<close>. For \<open>a < 2^52\<close> the double nearest to the quotient lies on the same
  side of every half-integer as the quotient itself (a quotient that is not a half-integer
  is at least \<open>1 / (2 b)\<close> away from one, more than half a unit in the last place), so
  \<open>Math.round\<close> gives the quotient rounded to the nearest integer, halves upwards. From
  \<open>2^52\<close> on the double can land on the other side, and the result is what the double
  computation gives: the parameter \<open>ieee\<close>.
\<close>

datatype jsnumber = Finite nat | Infinity | NaN

record progressEvent =
  loaded :: nat
  total :: "nat option"

definition round_quotient :: "(nat \<Rightarrow> nat \<Rightarrow> jsnumber) \<Rightarrow> nat \<Rightarrow> nat \<Rightarrow> jsnumber" where
  "round_quotient ieee a b =
     (if b = 0 then (if a = 0 then NaN else Infinity)
      else if a < 2 ^ 52 then Finite ((2 * a + b) div (2 * b))
      else ieee a b)"

definition math_min :: "nat \<Rightarrow> jsnumber \<Rightarrow> jsnumber" where
  "math_min k x = (case x of Finite n \<Rightarrow> Finite (min k n) | Infinity \<Rightarrow> Finite k | NaN \<Rightarrow> NaN)"

definition onDownloadProgress ::
  "(nat \<Rightarrow> nat \<Rightarrow> jsnumber) \<Rightarrow> bool \<Rightarrow> nat \<Rightarrow> progressEvent \<Rightarrow> jsnumber option" where
  "onDownloadProgress ieee onProgress textLength progressEvent =
     (if onProgress then
        (if total progressEvent \<noteq> None \<and> total progressEvent \<noteq> Some 0 then
           (let percentage =
              round_quotient ieee (loaded progressEvent * 100) (the (total progressEvent))
            in Some percentage)
         else
           (let estimatedTotal = textLength * 50;
                loaded = loaded progressEvent;
                percentage = math_min 95 (round_quotient ieee (loaded * 100) estimatedTotal)
            in Some percentage))
      else None)"

text \<open>
  \<open>mergeBuffers\<close>: one buffer is wrapped as it is, several go to \<open>mergeAudioBuffers\<close>. In
  the version of the hook that reports download progress, \<open>mergeBuffers\<close> always
  concatenates; that one is \<open>mergeBuffersConcat\<close>.
\<close>

definition mergeBuffers :: "(bytes list \<Rightarrow> exn + blob) \<Rightarrow> bytes list \<Rightarrow> exn + blob" where
  "mergeBuffers decodeMergeEncode buffers =
     (if length buffers = 1 then Inr (concatenateBuffers buffers)
      else mergeAudioBuffers decodeMergeEncode buffers)"

definition mergeBuffersConcat :: "bytes list \<Rightarrow> exn + blob" where
  "mergeBuffersConcat buffers = Inr (concatenateBuffers buffers)"

datatype sourceType = from_file | from_merged | from_text

datatype status = pending | processing | success | failed

text \<open>
  An \<open>AudioOutput\<close>. The field \<open>text\<close> is \<open>sourceText\<close> and the status \<open>'error'\<close> is the constructor \<open>failed\<close>. The object URL of
  the audio is identified with the blob it was created for.
\<close>

record AudioOutput =
  id :: jsstring
  name :: jsstring
  filename :: jsstring
  sourceType :: sourceType
  sourceText :: jsstring
  audioUrl :: "blob option"
  status :: status
  error :: "string option"

text \<open>
  The state of a run of \<open>convertMultiple\<close>: the array \<open>updatedOutputs\<close>, the texts of the
  requests sent so far, in order, and the toasts shown so far. The calls of \<open>onProgress\<close>,
  \<open>setProgress\<close> and \<open>setIsProcessing\<close> publish this state and are left out.
\<close>

record run =
  updatedOutputs :: "AudioOutput list"
  sent :: "jsstring list"
  toasts :: "toast list"

text \<open>
  The inner loop over the chunks (lines 344 to 352). The network is a sequence of outcomes:
  the request number \<open>n\<close> of the run, counted from zero, gets the outcome \<open>net n\<close>.
\<close>

fun requestChunks ::
  "(nat \<Rightarrow> response) \<Rightarrow> jsstring list \<Rightarrow> nat \<Rightarrow> bytes list \<Rightarrow> run \<Rightarrow> (exn + bytes list) \<times> run" where
  "requestChunks net [] j audioBuffers st = (Inr audioBuffers, st)"
| "requestChunks net (chunk # rest) j audioBuffers st =
     (let (audioData, shown) = sendTextForTTS (net (length (sent st))) chunk j;
          st' = st\<lparr>sent := sent st @ [chunk], toasts := toasts st @ shown\<rparr>
      in case audioData of
           Some data \<Rightarrow> requestChunks net rest (j + 1) (audioBuffers @ [data]) st'
         | None \<Rightarrow>
             (Inl (JsError (''Failed to generate audio for chunk '' @ decimal (j + 1))), st'))"

text \<open>
  The \<open>try\<close> block of one iteration (lines 340 to 356): the audio URL of the output, or the
  error it throws. \<open>None\<close> stands for a segmentation that does not end. The parameter
  \<open>merge\<close> is the function \<open>mergeBuffers\<close> of the hook: \<open>mergeBuffers decodeMergeEncode\<close>,
  or \<open>mergeBuffersConcat\<close> in the other version.
\<close>

definition tryConvert ::
  "(bytes list \<Rightarrow> exn + blob) \<Rightarrow> (nat \<Rightarrow> response) \<Rightarrow> AudioOutput \<Rightarrow> run \<Rightarrow>
   ((exn + blob) \<times> run) option" where
  "tryConvert merge net output st =
     (let cleanedText = removeExtraWhitespaces (sourceText output) in
      case splitTextIntoChunks cleanedText CHUNK_SIZE of
        None \<Rightarrow> None
      | Some (Inl e) \<Rightarrow> Some (Inl e, st)
      | Some (Inr chunks) \<Rightarrow>
          (case requestChunks net chunks 0 [] st of
             (Inl e, st') \<Rightarrow> Some (Inl e, st')
           | (Inr audioBuffers, st') \<Rightarrow>
               (case merge audioBuffers of
                  Inl e \<Rightarrow> Some (Inl e, st')
                | Inr mergedAudioBlob \<Rightarrow> Some (Inr mergedAudioBlob, st'))))"

text \<open>The body of the \<open>for\<close> loop, for the index \<open>i\<close> (lines 326 to 369).\<close>

definition convertItem ::
  "(bytes list \<Rightarrow> exn + blob) \<Rightarrow> (nat \<Rightarrow> response) \<Rightarrow> nat \<Rightarrow> run \<Rightarrow> run option" where
  "convertItem merge net i st =
     (let output = updatedOutputs st ! i in
      if sourceText output = [] \<or> length (trim (sourceText output)) = 0 then
        Some (st\<lparr>updatedOutputs := (updatedOutputs st)
                [i := output\<lparr>status := failed, error := Some ''No text to convert''\<rparr>]\<rparr>)
      else
        (let st = st\<lparr>updatedOutputs := (updatedOutputs st)[i := output\<lparr>status := processing\<rparr>]\<rparr>
         in case tryConvert merge net output st of
              None \<Rightarrow> None
            | Some (Inr newAudioUrl, st') \<Rightarrow>
                Some (st'\<lparr>updatedOutputs := (updatedOutputs st')
                        [i := output\<lparr>status := success, audioUrl := Some newAudioUrl\<rparr>]\<rparr>)
            | Some (Inl (JsError errorMessage), st') \<Rightarrow>
                Some (st'\<lparr>updatedOutputs := (updatedOutputs st')
                        [i := output\<lparr>status := failed, error := Some errorMessage\<rparr>]\<rparr>)))"

text \<open>
  The \<open>for\<close> loop: \<open>convertLoop \<dots> n st\<close> is the state after the iterations
  \<open>i = 0, \<dots>, n - 1\<close>. The loop runs up to the length of \<open>updatedOutputs\<close>, which no
  iteration changes.
\<close>

primrec convertLoop ::
  "(bytes list \<Rightarrow> exn + blob) \<Rightarrow> (nat \<Rightarrow> response) \<Rightarrow> nat \<Rightarrow> run \<Rightarrow> run option" where
  "convertLoop merge net 0 st = Some st"
| "convertLoop merge net (Suc i) st =
     (case convertLoop merge net i st of
        None \<Rightarrow> None
      | Some st' \<Rightarrow> convertItem merge net i st')"

definition convertMultiple ::
  "(bytes list \<Rightarrow> exn + blob) \<Rightarrow> (nat \<Rightarrow> response) \<Rightarrow> jsstring \<Rightarrow> AudioOutput list \<Rightarrow>
   run option" where
  "convertMultiple merge net apiKey outputs =
     (if apiKey = [] then
        Some \<lparr>updatedOutputs = outputs, sent = [],
              toasts = [\<lparr>title = ''Error'', description = ''Please enter your OpenAI API key.'',
                         variant = Some ''destructive''\<rparr>]\<rparr>
      else
        (case convertLoop merge net (length outputs)
                \<lparr>updatedOutputs = outputs, sent = [], toasts = []\<rparr> of
           None \<Rightarrow> None
         | Some st \<Rightarrow>
             (let successCount = length (filter (\<lambda>out. status out = success) (updatedOutputs st))
              in if successCount > 0
                 then Some (st\<lparr>toasts := toasts st @
                        [\<lparr>title = ''Success'',
                          description = ''Generated '' @ decimal successCount @ '' audio file'' @
                            (if successCount > 1 then ''s'' else []) @ '' successfully!'',
                          variant = None\<rparr>]\<rparr>)
                 else Some st)))"

section \<open>Notions used to state the properties of a batch\<close>

text \<open>
  A request fails when its outcome is not a response. The conversion of an output fails,
  when its first request is request number \<open>k\<close> of the run, if the segmentation of its
  text throws or one of the requests for its chunks fails. It succeeds with a blob if the
  text is not blank, the segmentation returns chunks, no request for them fails, and
  \<open>merge\<close> gives the blob for the data of the responses. \<open>startOfRun\<close> is the state in
  which the loop of \<open>convertMultiple\<close> starts.
\<close>

definition isFailure :: "response \<Rightarrow> bool" where
  "isFailure r = (case r of Ok _ \<Rightarrow> False | _ \<Rightarrow> True)"

definition responseData :: "response \<Rightarrow> bytes" where
  "responseData r = (case r of Ok data \<Rightarrow> data | _ \<Rightarrow> [])"

definition conversionFails :: "(nat \<Rightarrow> response) \<Rightarrow> nat \<Rightarrow> AudioOutput \<Rightarrow> bool" where
  "conversionFails net k output =
     (case splitTextIntoChunks (removeExtraWhitespaces (sourceText output)) CHUNK_SIZE of
        None \<Rightarrow> False
      | Some (Inl e) \<Rightarrow> True
      | Some (Inr chunks) \<Rightarrow> list_ex (\<lambda>j. isFailure (net (k + j))) [0 ..< length chunks])"

definition conversionSucceeds ::
  "(bytes list \<Rightarrow> exn + blob) \<Rightarrow> (nat \<Rightarrow> response) \<Rightarrow> nat \<Rightarrow> AudioOutput \<Rightarrow> blob \<Rightarrow> bool" where
  "conversionSucceeds merge net k output mergedAudioBlob =
     (\<not> list_all isWhitespace (sourceText output) \<and>
      (case splitTextIntoChunks (removeExtraWhitespaces (sourceText output)) CHUNK_SIZE of
         None \<Rightarrow> False
       | Some (Inl e) \<Rightarrow> False
       | Some (Inr chunks) \<Rightarrow>
           \<not> list_ex (\<lambda>j. isFailure (net (k + j))) [0 ..< length chunks] \<and>
           merge (map (\<lambda>j. responseData (net (k + j))) [0 ..< length chunks]) =
             Inr mergedAudioBlob))"

definition startOfRun :: "AudioOutput list \<Rightarrow> run" where
  "startOfRun outputs = \<lparr>updatedOutputs = outputs, sent = [], toasts = []\<rparr>"

text \<open>
  Example inputs: pending text jobs; a network whose second request fails, one whose
  requests all fail and one whose requests all succeed; a \<open>decodeMergeEncode\<close> that throws;
  a text of 50001 two-character sentences; a stand-in for the double computation, for
  arguments that do not reach it.
\<close>

definition jobWithText :: "jsstring \<Rightarrow> AudioOutput" where
  "jobWithText t = \<lparr>id = [], name = [], filename = [], sourceType = from_text, sourceText = t,
     audioUrl = None, status = pending, error = None\<rparr>"

definition textJob :: "string \<Rightarrow> AudioOutput" where
  "textJob t = jobWithText (js t)"

definition secondRequestFails :: "nat \<Rightarrow> response" where
  "secondRequestFails n = (if n = 1 then AxiosError (Some 500) else Ok [of_nat n])"

definition everyRequestFails :: "nat \<Rightarrow> response" where
  "everyRequestFails n = AxiosError (Some 500)"

definition everyRequestSucceeds :: "nat \<Rightarrow> response" where
  "everyRequestSucceeds n = Ok [of_nat n]"

definition codecThrows :: "bytes list \<Rightarrow> exn + blob" where
  "codecThrows buffers = Inl (JsError ''EncodingError'')"

definition shortSentences :: jsstring where
  "shortSentences = concat (replicate 50001 (js ''a.''))"

definition notReached :: "nat \<Rightarrow> nat \<Rightarrow> jsnumber" where
  "notReached a b = NaN"

section \<open>Facts about the string operations\<close>

lemma dropWhile_all_iff: "(\<forall>c \<in> set (dropWhile P s). P c) \<longleftrightarrow> (\<forall>c \<in> set s. P c)"
  by (induction s) auto

lemma trim_eq_Nil_iff: "trim s = [] \<longleftrightarrow> (\<forall>c \<in> set s. isWhitespace c)"
  by (simp add: trim_def dropWhile_all_iff)

lemma find_upt_Some:
  assumes "List.find P [a..<b] = Some k"
  shows "a \<le> k \<and> k < b \<and> P k \<and> (\<forall>j. a \<le> j \<and> j < k \<longrightarrow> \<not> P j)"
proof -
  from assms obtain i where i: "i < b - a" "P (a + i)" "k = a + i" "\<forall>j<i. \<not> P ([a..<b] ! j)"
    by (auto simp: find_Some_iff)
  have "\<not> P j" if "a \<le> j" "j < k" for j
  proof -
    have "j - a < i" using that i(3) by simp
    with i(4) have "\<not> P ([a..<b] ! (j - a))" by blast
    moreover have "[a..<b] ! (j - a) = j" using that i(1,3) by simp
    ultimately show ?thesis by simp
  qed
  with i show ?thesis by simp
qed

lemma find_rev_upt_Some: "List.find P (rev [a..<b]) = Some k \<Longrightarrow> a \<le> k \<and> k < b \<and> P k"
  by (auto simp: find_Some_iff rev_nth)

lemma indexOf_cases:
  "indexOf s c pos = - 1 \<or>
   (max pos 0 \<le> indexOf s c pos \<and> indexOf s c pos < int (length s) \<and>
    s ! nat (indexOf s c pos) = c)"
  by (auto simp: indexOf_def split: option.splits dest!: find_upt_Some)

lemma lastIndexOf_cases:
  "lastIndexOf s c pos = - 1 \<or>
   (0 \<le> lastIndexOf s c pos \<and> lastIndexOf s c pos \<le> max pos 0 \<and>
    lastIndexOf s c pos < int (length s) \<and> s ! nat (lastIndexOf s c pos) = c)"
  by (auto simp: lastIndexOf_def split: option.splits dest!: find_rev_upt_Some)

lemma lastIndexOf_none:
  "(\<And>k. int k \<le> max pos 0 \<Longrightarrow> k < length s \<Longrightarrow> s ! k \<noteq> c) \<Longrightarrow> lastIndexOf s c pos = - 1"
  by (auto simp: lastIndexOf_def find_None_iff split: option.splits)

lemma length_trim_le: "length (trim s) \<le> length s"
  unfolding trim_def
  by (metis length_dropWhile_le length_rev le_trans)

lemma length_slice_le: "0 \<le> a \<Longrightarrow> 0 \<le> b \<Longrightarrow> int (length (slice s a b)) \<le> max (b - a) 0"
  by (auto simp: slice_def Let_def)

section \<open>The loop of splitTextIntoChunks\<close>

lemma splitEndIndex_progress:
  assumes "1 \<le> m" "splitEndIndex s m cur = Inr e"
  shows "cur < e"
proof -
  consider (bwd) "cur + m < int (length s)" "lastIndexOf s period_char (cur + m) > cur"
    | (fwd) "cur + m < int (length s)" "\<not> lastIndexOf s period_char (cur + m) > cur"
    | (tail) "\<not> cur + m < int (length s)" by blast
  then show ?thesis
  proof cases
    case bwd
    with assms show ?thesis by (auto simp: splitEndIndex_def Let_def)
  next
    case fwd
    with assms have e: "indexOf s period_char (cur + m) \<noteq> - 1" "e = indexOf s period_char (cur + m) + 1"
      by (auto simp: splitEndIndex_def Let_def split: if_splits)
    with indexOf_cases [of s period_char "cur + m"] assms(1) show ?thesis by auto
  next
    case tail
    with assms show ?thesis by (auto simp: splitEndIndex_def Let_def)
  qed
qed

lemma splitEndIndex_upper:
  assumes "0 \<le> m" "0 \<le> cur" "splitEndIndex s m cur = Inr e"
  shows "2 * (e - cur) \<le> 3 * m + 2"
proof -
  consider (bwd) "cur + m < int (length s)" "lastIndexOf s period_char (cur + m) > cur"
    | (fwd) "cur + m < int (length s)" "\<not> lastIndexOf s period_char (cur + m) > cur"
    | (tail) "\<not> cur + m < int (length s)" by blast
  then show ?thesis
  proof cases
    case bwd
    with assms have "e = lastIndexOf s period_char (cur + m) + 1"
      by (auto simp: splitEndIndex_def Let_def)
    with lastIndexOf_cases [of s period_char "cur + m"] bwd assms(1,2) show ?thesis by auto
  next
    case fwd
    with assms show ?thesis
      by (auto simp: splitEndIndex_def Let_def split: if_splits)
  next
    case tail
    with assms show ?thesis by (auto simp: splitEndIndex_def Let_def)
  qed
qed

lemma splitLoop_total:
  assumes "1 \<le> m"
  shows "\<exists>r. splitLoop s m cur chunks = Some r"
proof (induction "nat (int (length s) - cur)" arbitrary: cur chunks rule: less_induct)
  case less
  show ?case
  proof (cases "cur < int (length s)")
    case False
    then show ?thesis by (subst splitLoop.simps) simp
  next
    case True
    show ?thesis
    proof (cases "splitEndIndex s m cur")
      case (Inl e)
      with True show ?thesis by (subst splitLoop.simps) simp
    next
      case (Inr e)
      with assms have "cur < e" by (rule splitEndIndex_progress)
      with True have "nat (int (length s) - e) < nat (int (length s) - cur)" by simp
      from less [OF this] Inr True show ?thesis
        by (subst splitLoop.simps) (simp add: Let_def)
    qed
  qed
qed

text \<open>A loop rule: an invariant of the iterations holds of the returned array.\<close>

lemma splitLoop_invariant:
  assumes m: "1 \<le> m"
    and step: "\<And>cur chunks e. Inv cur chunks \<Longrightarrow> cur < int (length s) \<Longrightarrow>
                 splitEndIndex s m cur = Inr e \<Longrightarrow> cur < e \<Longrightarrow>
                 Inv e (let chunk = trim (slice s cur e) in if chunk \<noteq> [] then chunks @ [chunk] else chunks)"
    and init: "Inv cur chunks"
    and res: "splitLoop s m cur chunks = Some (Inr result)"
  shows "\<exists>final. \<not> final < int (length s) \<and> Inv final result"
  using init res
proof (induction "nat (int (length s) - cur)" arbitrary: cur chunks rule: less_induct)
  case less
  show ?case
  proof (cases "cur < int (length s)")
    case False
    with less.prems have "result = chunks" by (subst (asm) splitLoop.simps) simp
    with False less.prems(1) show ?thesis by blast
  next
    case True
    show ?thesis
    proof (cases "splitEndIndex s m cur")
      case (Inl e)
      with True less.prems(2) show ?thesis by (subst (asm) splitLoop.simps) simp
    next
      case (Inr e)
      with m have lt: "cur < e" by (rule splitEndIndex_progress)
      with True have dec: "nat (int (length s) - e) < nat (int (length s) - cur)" by simp
      let ?chunks = "let chunk = trim (slice s cur e) in if chunk \<noteq> [] then chunks @ [chunk] else chunks"
      have inv: "Inv e ?chunks" using step [OF less.prems(1) True Inr lt] .
      have "splitLoop s m e ?chunks = Some (Inr result)"
        using less.prems(2) True Inr by (subst (asm) splitLoop.simps) (simp add: Let_def)
      from less.hyps [OF dec inv this] show ?thesis .
    qed
  qed
qed

lemma splitLoop_chunk_bound:
  assumes "1 \<le> m" "0 \<le> cur" "\<forall>c \<in> set chunks. 2 * int (length c) \<le> 3 * m + 2"
    and "splitLoop s m cur chunks = Some (Inr result)"
  shows "\<forall>c \<in> set result. 2 * int (length c) \<le> 3 * m + 2"
proof -
  let ?Inv = "\<lambda>cur chunks. 0 \<le> cur \<and> (\<forall>c \<in> set chunks. 2 * int (length c) \<le> 3 * m + 2)"
  have "\<exists>final. \<not> final < int (length s) \<and> ?Inv final result"
  proof (rule splitLoop_invariant [where Inv = ?Inv, OF assms(1) _ _ assms(4)])
    fix i :: int and acc :: "jsstring list" and e :: int
    assume inv: "?Inv i acc" and e: "splitEndIndex s m i = Inr e" and lt: "i < e"
    have "int (length (trim (slice s i e))) \<le> int (length (slice s i e))"
      using length_trim_le by simp
    also have "\<dots> \<le> e - i" using length_slice_le [of i e s] inv lt by simp
    finally have "2 * int (length (trim (slice s i e))) \<le> 3 * m + 2"
      using splitEndIndex_upper [OF _ _ e] assms(1) inv by simp
    with inv lt show "?Inv e (let chunk = trim (slice s i e) in if chunk \<noteq> [] then acc @ [chunk] else acc)"
      by (auto simp: Let_def)
  next
    show "?Inv cur chunks" using assms by simp
  qed
  then show ?thesis by blast
qed

section \<open>A first sentence that is too long\<close>

lemma replaceWhitespaceRuns_id:
  "\<forall>c \<in> set t. \<not> isWhitespace c \<Longrightarrow> replaceWhitespaceRuns t = t"
  by (induction t) auto

lemma dropWhile_id: "\<forall>c \<in> set t. \<not> P c \<Longrightarrow> dropWhile P t = t"
  by (cases t) auto

lemma trim_id: "\<forall>c \<in> set t. \<not> isWhitespace c \<Longrightarrow> trim t = t"
  by (simp add: trim_def dropWhile_id)

lemma removeExtraWhitespaces_id:
  "\<forall>c \<in> set t. \<not> isWhitespace c \<Longrightarrow> removeExtraWhitespaces t = t"
  by (simp add: removeExtraWhitespaces_def replaceWhitespaceRuns_id trim_id)

lemma sentenceEnd_le_length: "sentenceEnd s \<le> length s"
  by (simp add: sentenceEnd_def length_takeWhile_le)

lemma sentenceEnd_le_period:
  assumes "k < length s" "s ! k = period_char"
  shows "sentenceEnd s \<le> k"
proof (rule ccontr)
  assume "\<not> sentenceEnd s \<le> k"
  then have k: "k < length (takeWhile (\<lambda>c. c \<noteq> period_char) s)"
    by (simp add: sentenceEnd_def)
  then have "takeWhile (\<lambda>c. c \<noteq> period_char) s ! k \<in> set (takeWhile (\<lambda>c. c \<noteq> period_char) s)"
    by (rule nth_mem)
  then have "takeWhile (\<lambda>c. c \<noteq> period_char) s ! k \<noteq> period_char"
    by (auto dest: set_takeWhileD)
  with k assms(2) show False by (simp add: takeWhile_nth)
qed

lemma no_period_before:
  assumes "0 \<le> m" "period_char \<notin> set (take (nat m + 1) s)"
  shows "lastIndexOf s period_char m = - 1"
proof (rule lastIndexOf_none)
  fix k assume "int k \<le> max m 0" "k < length s"
  with assms(1) have "k < length (take (nat m + 1) s)" by simp
  then have "take (nat m + 1) s ! k \<in> set (take (nat m + 1) s)" by (rule nth_mem)
  moreover have "take (nat m + 1) s ! k = s ! k" using \<open>int k \<le> max m 0\<close> assms(1) by simp
  ultimately show "s ! k \<noteq> period_char" using assms(2) by metis
qed

lemma next_period_far:
  assumes "indexOf s period_char m \<noteq> - 1"
  shows "int (sentenceEnd s) \<le> indexOf s period_char m"
proof -
  from assms indexOf_cases [of s period_char m]
  have *: "0 \<le> indexOf s period_char m" "indexOf s period_char m < int (length s)"
    "s ! nat (indexOf s period_char m) = period_char" by auto
  then have "sentenceEnd s \<le> nat (indexOf s period_char m)"
    by (intro sentenceEnd_le_period) auto
  with * show ?thesis by simp
qed

lemma splitEndIndex_long_sentence:
  assumes "1 \<le> m" "period_char \<notin> set (take (nat m + 1) s)" "3 * m < 2 * int (sentenceEnd s)"
  shows "0 < int (length s) \<and> splitEndIndex s m 0 =
     Inl (JsError (''Sentence exceeds chunk size limit of '' @ show_int m @
       '' characters. Consider adding sentence breaks to your text.''))"
proof -
  have len: "m < int (length s)" using assms(1,3) sentenceEnd_le_length [of s] by simp
  have last: "lastIndexOf s period_char m = - 1" using assms(1,2) by (intro no_period_before) auto
  have "indexOf s period_char m = - 1 \<or> 3 * m < 2 * indexOf s period_char m"
    using next_period_far [of s m] assms(3) by (cases "indexOf s period_char m = - 1") auto
  with len last assms(1) show ?thesis by (auto simp: splitEndIndex_def Let_def)
qed

lemma chunkEndIndex_long_sentence:
  assumes "period_char \<notin> set (take (nat CHUNK_SIZE + 1) s)" "CHUNK_SIZE < int (sentenceEnd s)"
  shows "0 < int (length s) \<and> chunkEndIndex s 0 =
     Inl (JsError ''Sentence exceeds chunk size limit of 4000 characters.'')"
proof -
  have pos: "0 \<le> CHUNK_SIZE" by (simp add: CHUNK_SIZE_def)
  have len: "CHUNK_SIZE < int (length s)" using assms(2) sentenceEnd_le_length [of s] by simp
  have last: "lastIndexOf s period_char CHUNK_SIZE = - 1" using pos assms(1) by (rule no_period_before)
  have "indexOf s period_char CHUNK_SIZE = - 1 \<or> CHUNK_SIZE < indexOf s period_char CHUNK_SIZE"
    using next_period_far [of s CHUNK_SIZE] assms(2)
    by (cases "indexOf s period_char CHUNK_SIZE = - 1") auto
  with len last pos show ?thesis by (auto simp: chunkEndIndex_def Let_def)
qed

section \<open>Normalized texts and the chunks of the loop\<close>

lemma joinWith_snoc: "chunks \<noteq> [] \<Longrightarrow> joinWith sep (chunks @ [c]) = joinWith sep chunks @ sep @ c"
  by (induction sep chunks rule: joinWith.induct) auto

lemma periodsSpaced_nth:
  "periodsSpaced s \<Longrightarrow> Suc i < length s \<Longrightarrow> s ! i = period_char \<Longrightarrow> s ! Suc i = space_char"
proof (induction s arbitrary: i rule: periodsSpaced.induct)
  case (1 a b cs)
  then show ?case by (cases i) auto
qed simp_all

lemma noDoubleWhitespace_nth:
  "noDoubleWhitespace s \<Longrightarrow> Suc i < length s \<Longrightarrow> isWhitespace (s ! i) \<Longrightarrow> \<not> isWhitespace (s ! Suc i)"
proof (induction s arbitrary: i rule: noDoubleWhitespace.induct)
  case (1 a b cs)
  then show ?case by (cases i) auto
qed simp_all

lemma noDoubleWhitespace_Cons: "noDoubleWhitespace (a # s) \<Longrightarrow> noDoubleWhitespace s"
  by (cases s) auto

lemma noDoubleWhitespace_append:
  "noDoubleWhitespace (xs @ ys) \<Longrightarrow> noDoubleWhitespace xs \<and> noDoubleWhitespace ys"
proof (induction xs)
  case Nil
  then show ?case by simp
next
  case (Cons a xs)
  from Cons.prems have "noDoubleWhitespace (xs @ ys)"
    using noDoubleWhitespace_Cons [of a "xs @ ys"] by simp
  with Cons.IH have ih: "noDoubleWhitespace xs" "noDoubleWhitespace ys" by simp_all
  have "noDoubleWhitespace (a # xs)"
  proof (cases xs)
    case Nil
    then show ?thesis by simp
  next
    case (Cons b cs)
    with Cons.prems ih(1) show ?thesis by simp
  qed
  with ih(2) show ?case by simp
qed

lemma replaceWhitespaceRuns_hd:
  "cs \<noteq> [] \<Longrightarrow> \<not> isWhitespace (hd cs) \<Longrightarrow>
   replaceWhitespaceRuns cs \<noteq> [] \<and> hd (replaceWhitespaceRuns cs) = hd cs"
  by (cases cs) auto

lemma replaceWhitespaceRuns_nonempty: "replaceWhitespaceRuns xs \<noteq> [] \<Longrightarrow> xs \<noteq> []"
  by (cases xs) auto

lemma dropWhile_rev_nonempty: "dropWhile P (rev xs) \<noteq> [] \<Longrightarrow> xs \<noteq> []"
  by (cases xs) auto

lemma dropWhile_hd: "dropWhile P xs \<noteq> [] \<Longrightarrow> \<not> P (hd (dropWhile P xs))"
  by (metis hd_dropWhile)

lemma noDoubleWhitespace_ConsI:
  "noDoubleWhitespace s \<Longrightarrow> (s \<noteq> [] \<Longrightarrow> \<not> (isWhitespace a \<and> isWhitespace (hd s))) \<Longrightarrow>
   noDoubleWhitespace (a # s)"
  by (cases s) auto

lemma replaceWhitespaceRuns_noDouble: "noDoubleWhitespace (replaceWhitespaceRuns s)"
proof (induction s rule: replaceWhitespaceRuns.induct)
  case 1
  show ?case by simp
next
  case (2 c cs)
  show ?case
  proof (cases "isWhitespace c \<and> cs \<noteq> [] \<and> isWhitespace (hd cs)")
    case True
    let ?rest = "dropWhile isWhitespace cs"
    have "noDoubleWhitespace (replaceWhitespaceRuns ?rest)" using 2(1) True by simp
    moreover have "\<not> isWhitespace (hd (replaceWhitespaceRuns ?rest))"
      if "replaceWhitespaceRuns ?rest \<noteq> []"
    proof -
      from that have "?rest \<noteq> []" by (rule replaceWhitespaceRuns_nonempty)
      then have "\<not> isWhitespace (hd ?rest)" by (rule dropWhile_hd)
      with \<open>?rest \<noteq> []\<close> replaceWhitespaceRuns_hd [of ?rest] show ?thesis by simp
    qed
    ultimately have "noDoubleWhitespace (space_char # replaceWhitespaceRuns ?rest)"
      by (intro noDoubleWhitespace_ConsI) auto
    moreover have "replaceWhitespaceRuns (c # cs) = space_char # replaceWhitespaceRuns ?rest"
      using True by auto
    ultimately show ?thesis by (simp only:)
  next
    case False
    have ih: "noDoubleWhitespace (replaceWhitespaceRuns cs)" using 2(2) False by simp
    have "\<not> (isWhitespace c \<and> isWhitespace (hd (replaceWhitespaceRuns cs)))"
      if "replaceWhitespaceRuns cs \<noteq> []"
    proof (cases "isWhitespace c")
      case True
      from that have "cs \<noteq> []" by auto
      with True False have "\<not> isWhitespace (hd cs)" by simp
      with \<open>cs \<noteq> []\<close> replaceWhitespaceRuns_hd [of cs] show ?thesis by simp
    next
      case False
      then show ?thesis by simp
    qed
    with ih have "noDoubleWhitespace (c # replaceWhitespaceRuns cs)"
      by (intro noDoubleWhitespace_ConsI) auto
    moreover have "replaceWhitespaceRuns (c # cs) = c # replaceWhitespaceRuns cs"
      using False by auto
    ultimately show ?thesis by (simp only:)
  qed
qed

text \<open>\<open>trim\<close> removes a whitespace prefix and a whitespace suffix, and nothing else.\<close>

lemma trim_decomposition:
  "\<exists>before after. s = before @ trim s @ after \<and>
     (\<forall>c \<in> set before. isWhitespace c) \<and> (\<forall>c \<in> set after. isWhitespace c)"
proof -
  let ?t = "dropWhile isWhitespace s"
  have "s = takeWhile isWhitespace s @ ?t" by simp
  moreover have "?t = trim s @ rev (takeWhile isWhitespace (rev ?t))"
  proof -
    have "rev (takeWhile isWhitespace (rev ?t) @ dropWhile isWhitespace (rev ?t)) =
        rev (dropWhile isWhitespace (rev ?t)) @ rev (takeWhile isWhitespace (rev ?t))"
      by (rule rev_append)
    then show ?thesis by (simp only: takeWhile_dropWhile_id rev_rev_ident trim_def)
  qed
  moreover have "\<forall>c \<in> set (takeWhile isWhitespace s). isWhitespace c"
    by (auto dest: set_takeWhileD)
  moreover have "\<forall>c \<in> set (rev (takeWhile isWhitespace (rev ?t))). isWhitespace c"
    by (auto dest: set_takeWhileD)
  ultimately show ?thesis by metis
qed

lemma trim_ends:
  assumes "trim s \<noteq> []"
  shows "\<not> isWhitespace (hd (trim s)) \<and> \<not> isWhitespace (last (trim s))"
proof -
  let ?t = "dropWhile isWhitespace s"
  let ?u = "dropWhile isWhitespace (rev ?t)"
  from assms have u: "?u \<noteq> []" by (simp add: trim_def)
  then have "\<not> isWhitespace (hd ?u)" by (rule dropWhile_hd)
  then have l: "\<not> isWhitespace (last (trim s))" using u by (simp add: trim_def last_rev)
  from u have t: "?t \<noteq> []" by (rule dropWhile_rev_nonempty)
  then have "\<not> isWhitespace (hd ?t)" by (rule dropWhile_hd)
  moreover have "hd (trim s) = hd ?t"
  proof -
    have "last ?u = last (rev ?t)"
      using u by (metis last_appendR takeWhile_dropWhile_id)
    then show ?thesis using u t by (simp add: trim_def hd_rev last_rev)
  qed
  ultimately show ?thesis using l by simp
qed

lemma trim_fixed:
  assumes "x \<noteq> []" "\<not> isWhitespace (hd x)" "\<not> isWhitespace (last x)"
  shows "trim x = x"
proof -
  have "dropWhile isWhitespace x = x" using assms(1,2) by (cases x) auto
  moreover have "dropWhile isWhitespace (rev x) = rev x"
    using assms(1,3) by (cases "rev x") (auto simp: hd_rev [symmetric])
  ultimately show ?thesis by (simp add: trim_def)
qed

lemma removeExtraWhitespaces_normal:
  "noDoubleWhitespace (removeExtraWhitespaces t) \<and>
   (removeExtraWhitespaces t \<noteq> [] \<longrightarrow>
      \<not> isWhitespace (hd (removeExtraWhitespaces t)) \<and>
      \<not> isWhitespace (last (removeExtraWhitespaces t)))"
proof -
  obtain a b where "replaceWhitespaceRuns t = a @ trim (replaceWhitespaceRuns t) @ b"
    using trim_decomposition [of "replaceWhitespaceRuns t"] by blast
  with replaceWhitespaceRuns_noDouble [of t]
  have "noDoubleWhitespace (trim (replaceWhitespaceRuns t))"
    by (metis noDoubleWhitespace_append)
  with trim_ends [of "replaceWhitespaceRuns t"] show ?thesis
    by (simp add: removeExtraWhitespaces_def)
qed


lemma period_not_whitespace: "\<not> isWhitespace period_char"
  by (simp add: isWhitespace_def period_char_def)

lemma space_is_whitespace: "isWhitespace space_char"
  by (simp add: isWhitespace_def space_char_def)

lemma trim_whitespace_Cons: "isWhitespace a \<Longrightarrow> trim (a # x) = trim x"
  by (simp add: trim_def)

lemma slice_take_drop:
  assumes "0 \<le> cur" "cur < e" "cur < int (length s)"
  shows "slice s cur e = take (nat (min e (int (length s))) - nat cur) (drop (nat cur) s)"
  using assms by (simp add: slice_def Let_def min_def nat_diff_distrib)

lemma last_take:
  assumes "1 \<le> k" "k \<le> length s"
  shows "last (take k s) = s ! (k - 1)"
proof -
  have "take k s \<noteq> []" using assms by auto
  then have "last (take k s) = take k s ! (length (take k s) - 1)" by (rule last_conv_nth)
  also have "length (take k s) = k" using assms(2) by simp
  also have "take k s ! (k - 1) = s ! (k - 1)" using assms(1) by simp
  finally show ?thesis .
qed

lemma chunk_first:
  assumes "s \<noteq> []" "\<not> isWhitespace (hd s)" "1 \<le> k" "k \<le> length s" "\<not> isWhitespace (s ! (k - 1))"
  shows "trim (take k s) = take k s \<and> take k s \<noteq> []"
proof -
  have ne: "take k s \<noteq> []" using assms(1,3) by simp
  moreover have "hd (take k s) = hd s" using assms(3) by (cases k) simp_all
  moreover have "last (take k s) = s ! (k - 1)" using assms(3,4) by (rule last_take)
  ultimately show ?thesis using assms(2,5) by (simp add: trim_fixed)
qed

lemma chunk_next:
  assumes "isWhitespace (s ! j)" "j + 2 \<le> k" "k \<le> length s"
    and "\<not> isWhitespace (s ! (j + 1))" "\<not> isWhitespace (s ! (k - 1))"
  shows "trim (take (k - j) (drop j s)) = take (k - j - 1) (drop (j + 1) s) \<and>
         take (k - j - 1) (drop (j + 1) s) \<noteq> [] \<and>
         take j s @ [s ! j] @ take (k - j - 1) (drop (j + 1) s) = take k s \<and>
         trim (take (k - j - 1) (drop (j + 1) s)) = take (k - j - 1) (drop (j + 1) s)"
proof -
  let ?rest = "take (k - j - 1) (drop (j + 1) s)"
  have j: "j < length s" using assms(2,3) by simp
  have d: "drop j s = s ! j # drop (j + 1) s" using j by (simp add: Cons_nth_drop_Suc)
  have kj: "k - j = Suc (k - j - 1)" using assms(2) by simp
  have sl: "take (k - j) (drop j s) = s ! j # ?rest"
    by (subst kj, subst d) simp
  have ne: "?rest \<noteq> []" using assms(2,3) by simp
  have "hd ?rest = s ! (j + 1)" using assms(2,3) by (simp add: hd_drop_conv_nth)
  moreover have "last ?rest = s ! (k - 1)"
  proof -
    have "last ?rest = drop (j + 1) s ! (k - j - 1 - 1)"
      using assms(2,3) by (intro last_take) auto
    also have "\<dots> = s ! (j + 1 + (k - j - 1 - 1))" using assms(2,3) by simp
    also have "j + 1 + (k - j - 1 - 1) = k - 1" using assms(2) by arith
    finally show ?thesis .
  qed
  ultimately have t: "trim ?rest = ?rest" using ne assms(4,5) by (simp add: trim_fixed)
  then have a: "trim (take (k - j) (drop j s)) = ?rest"
    using assms(1) by (simp add: sl trim_whitespace_Cons)
  have "take k s = take j s @ take (k - j) (drop j s)"
    using assms(2) take_add [of j "k - j" s] by simp
  then have b: "take j s @ [s ! j] @ ?rest = take k s" by (simp add: sl)
  from a ne b t show ?thesis by simp
qed

lemma splitEndIndex_boundary:
  assumes "1 \<le> m" "0 \<le> cur" "splitEndIndex s m cur = Inr e"
  shows "int (length s) \<le> e \<or>
         (cur + 2 \<le> e \<and> e \<le> int (length s) \<and> s ! nat (e - 1) = period_char)"
proof -
  consider (bwd) "cur + m < int (length s)" "lastIndexOf s period_char (cur + m) > cur"
    | (fwd) "cur + m < int (length s)" "\<not> lastIndexOf s period_char (cur + m) > cur"
    | (tail) "\<not> cur + m < int (length s)" by blast
  then show ?thesis
  proof cases
    case bwd
    with assms have "e = lastIndexOf s period_char (cur + m) + 1"
      by (auto simp: splitEndIndex_def Let_def)
    with lastIndexOf_cases [of s period_char "cur + m"] bwd assms(2) show ?thesis by auto
  next
    case fwd
    with assms have e: "indexOf s period_char (cur + m) \<noteq> - 1"
      "e = indexOf s period_char (cur + m) + 1"
      by (auto simp: splitEndIndex_def Let_def split: if_splits)
    with indexOf_cases [of s period_char "cur + m"] assms(1,2) show ?thesis by auto
  next
    case tail
    with assms show ?thesis by (auto simp: splitEndIndex_def Let_def)
  qed
qed


lemma splitLoop_rejoin:
  assumes m: "1 \<le> m"
    and n1: "s \<noteq> [] \<longrightarrow> \<not> isWhitespace (hd s) \<and> \<not> isWhitespace (last s)"
    and n2: "noDoubleWhitespace s"
    and h: "periodsSpaced s"
    and res: "splitLoop s m 0 [] = Some (Inr chunks)"
  shows "joinWith [space_char] (map trim chunks) = s"
proof -
  define Inv where "Inv cur acc \<longleftrightarrow>
      0 \<le> cur \<and> (cur = 0 \<longrightarrow> acc = []) \<and> (0 < cur \<longrightarrow> acc \<noteq> []) \<and>
      joinWith [space_char] acc = take (nat cur) s \<and> (\<forall>c \<in> set acc. trim c = c) \<and>
      (0 < cur \<and> cur < int (length s) \<longrightarrow> s ! nat (cur - 1) = period_char)"
    for cur :: int and acc :: "jsstring list"
  have "\<exists>final. \<not> final < int (length s) \<and> Inv final chunks"
  proof (rule splitLoop_invariant [where Inv = Inv, OF m _ _ res])
    show "Inv 0 []" by (simp add: Inv_def)
  next
    fix cur :: int and acc :: "jsstring list" and e :: int
    assume inv: "Inv cur acc" and lt: "cur < int (length s)"
      and e: "splitEndIndex s m cur = Inr e" and ce: "cur < e"
    define k where "k = nat (min e (int (length s)))"
    define j where "j = nat cur"
    have cur0: "0 \<le> cur" using inv by (simp add: Inv_def)
    have j: "j < length s" using lt cur0 by (simp add: j_def)
    have sne: "s \<noteq> []" using j by auto
    have k: "k \<le> length s" "j < k" using lt cur0 ce sne by (simp_all add: k_def j_def)
    have sl: "slice s cur e = take (k - j) (drop j s)"
      using slice_take_drop [OF cur0 ce lt] by (simp add: k_def j_def)
    have bd: "int (length s) \<le> e \<or>
         (cur + 2 \<le> e \<and> e \<le> int (length s) \<and> s ! nat (e - 1) = period_char)"
      using m cur0 e by (rule splitEndIndex_boundary)
    have lastk: "\<not> isWhitespace (s ! (k - 1))"
    proof (cases "int (length s) \<le> e")
      case True
      then have "k = length s" by (simp add: k_def)
      then have "s ! (k - 1) = last s" using sne by (simp add: last_conv_nth)
      with n1 sne show ?thesis by simp
    next
      case False
      with bd have "s ! nat (e - 1) = period_char" "k = nat e" by (simp_all add: k_def)
      moreover have "nat (e - 1) = nat e - 1" by simp
      ultimately show ?thesis using period_not_whitespace by simp
    qed
    have takeE: "take (nat e) s = take k s"
      by (cases "int (length s) \<le> e") (simp_all add: k_def min_def)
    have bound: "0 < e \<and> e < int (length s) \<longrightarrow> s ! nat (e - 1) = period_char"
      using bd by auto
    show "Inv e (let chunk = trim (slice s cur e) in if chunk \<noteq> [] then acc @ [chunk] else acc)"
    proof (cases "cur = 0")
      case True
      then have "acc = []" "j = 0" using inv by (simp_all add: Inv_def j_def)
      moreover have "trim (take k s) = take k s \<and> take k s \<noteq> []"
        using sne n1 k(2) k(1) lastk by (intro chunk_first) auto
      ultimately show ?thesis
        using ce cur0 takeE bound by (simp add: Inv_def sl Let_def)
    next
      case False
      with cur0 have pos: "0 < cur" by simp
      with inv lt have acc: "acc \<noteq> []" "joinWith [space_char] acc = take j s"
        "\<forall>c \<in> set acc. trim c = c" "s ! nat (cur - 1) = period_char"
        by (simp_all add: Inv_def j_def)
      have "nat (cur - 1) = j - 1" "Suc (j - 1) = j" using pos by (simp_all add: j_def)
      with acc(4) j periodsSpaced_nth [OF h, of "j - 1"] have sj: "s ! j = space_char" by simp
      then have wsj: "isWhitespace (s ! j)" by (simp add: space_is_whitespace)
      have j1: "j + 1 < length s"
      proof (rule ccontr)
        assume "\<not> j + 1 < length s"
        with j have "j = length s - 1" by simp
        then have "last s = s ! j" using sne by (simp add: last_conv_nth)
        with wsj n1 sne show False by simp
      qed
      have nws: "\<not> isWhitespace (s ! (j + 1))"
        using noDoubleWhitespace_nth [OF n2, of j] j1 wsj by simp
      have jk: "j + 2 \<le> k"
      proof (cases "int (length s) \<le> e")
        case True
        then have "k = length s" by (simp add: k_def)
        with j1 show ?thesis by simp
      next
        case False
        with bd have "cur + 2 \<le> e" "k = nat e" by (simp_all add: k_def)
        then show ?thesis using cur0 by (simp add: j_def)
      qed
      let ?rest = "take (k - j - 1) (drop (j + 1) s)"
      from chunk_next [OF wsj jk k(1) nws lastk]
      have cn: "trim (take (k - j) (drop j s)) = ?rest" "?rest \<noteq> []"
        "take j s @ [s ! j] @ ?rest = take k s" "trim ?rest = ?rest" by simp_all
      have "joinWith [space_char] (acc @ [?rest]) = take k s"
        using joinWith_snoc [OF acc(1), of "[space_char]" ?rest] acc(2) cn(3) sj by simp
      then show ?thesis
        using ce cur0 takeE bound cn(1,2,4) acc(3) by (simp add: Inv_def sl Let_def)
    qed
  qed
  then obtain final where final: "\<not> final < int (length s)" "Inv final chunks" by blast
  then have "joinWith [space_char] chunks = take (nat final) s" "\<forall>c \<in> set chunks. trim c = c"
    by (simp_all add: Inv_def)
  moreover have "take (nat final) s = s" using final(1) by simp
  moreover have "map trim chunks = chunks" using calculation(2) by (simp add: map_idI)
  ultimately show ?thesis by simp
qed

section \<open>Rounding a quotient\<close>

lemma round_div_floor:
  assumes "0 < (b::nat)"
  shows "(2 * a + b) div (2 * b) = a div b + (if b \<le> 2 * (a mod b) then 1 else 0)"
proof -
  define q r where "q = a div b" and "r = a mod b"
  have a: "a = q * b + r" and r: "r < b" using assms by (simp_all add: q_def r_def)
  have "2 * a + b = q * (2 * b) + (2 * r + b)" by (simp add: a algebra_simps)
  then have "(2 * a + b) div (2 * b) = q + (2 * r + b) div (2 * b)"
    using assms by (metis div_mult_self3 mult_is_0 not_less0 zero_neq_numeral)
  moreover have "(2 * r + b) div (2 * b) = (if b \<le> 2 * r then 1 else 0)"
  proof (cases "b \<le> 2 * r")
    case True
    then have "2 * b * 1 \<le> 2 * r + b" "2 * r + b < 2 * b * Suc 1" using r by auto
    then have "(2 * r + b) div (2 * b) = 1"
      by (rule div_nat_eqI)
    with True show ?thesis by simp
  next
    case False
    then show ?thesis by simp
  qed
  ultimately show ?thesis by (simp add: q_def r_def)
qed

section \<open>The iterations of convertMultiple\<close>

lemma splitTextIntoChunks_CHUNK_SIZE_total: "\<exists>r. splitTextIntoChunks t CHUNK_SIZE = Some r"
  unfolding splitTextIntoChunks_def
  by (rule splitLoop_total) (simp add: CHUNK_SIZE_def)

lemma sendTextForTTS_None_iff: "fst (sendTextForTTS r t j) = None \<longleftrightarrow> isFailure r"
  by (cases r) (simp_all add: sendTextForTTS_def isFailure_def Let_def)

text \<open>The requests of a job depend on the outcomes from its first request on only.\<close>

lemma requestChunks_frame:
  assumes "\<And>n. net (length (sent st) + n) = net2 (length (sent st2) + n)"
  shows "\<exists>ds ts. requestChunks net chunks j bufs st =
           (fst (requestChunks net2 chunks j bufs st2),
            st\<lparr>sent := sent st @ ds, toasts := toasts st @ ts\<rparr>) \<and>
         snd (requestChunks net2 chunks j bufs st2) =
            st2\<lparr>sent := sent st2 @ ds, toasts := toasts st2 @ ts\<rparr>"
  using assms
proof (induction chunks arbitrary: j bufs st st2)
  case Nil
  show ?case by (rule exI [of _ "[]"], rule exI [of _ "[]"]) simp
next
  case (Cons chunk rest)
  from Cons.prems [of 0] have same: "net (length (sent st)) = net2 (length (sent st2))" by simp
  obtain audioData shown where s: "sendTextForTTS (net2 (length (sent st2))) chunk j = (audioData, shown)"
    by (cases "sendTextForTTS (net2 (length (sent st2))) chunk j")
  let ?st' = "st\<lparr>sent := sent st @ [chunk], toasts := toasts st @ shown\<rparr>"
  let ?st2' = "st2\<lparr>sent := sent st2 @ [chunk], toasts := toasts st2 @ shown\<rparr>"
  show ?case
  proof (cases audioData)
    case None
    show ?thesis
      by (rule exI [of _ "[chunk]"], rule exI [of _ shown]) (simp add: same s None)
  next
    case (Some data)
    have "\<And>n. net (length (sent ?st') + n) = net2 (length (sent ?st2') + n)"
      using Cons.prems [of "Suc _"] by simp
    from Cons.IH [OF this, of "j + 1" "bufs @ [data]"]
    obtain ds ts where
      a: "requestChunks net rest (j + 1) (bufs @ [data]) ?st' =
           (fst (requestChunks net2 rest (j + 1) (bufs @ [data]) ?st2'),
            ?st'\<lparr>sent := sent ?st' @ ds, toasts := toasts ?st' @ ts\<rparr>)"
      and b: "snd (requestChunks net2 rest (j + 1) (bufs @ [data]) ?st2') =
            ?st2'\<lparr>sent := sent ?st2' @ ds, toasts := toasts ?st2' @ ts\<rparr>"
      by blast
    show ?thesis
      using a b
      by (intro exI [of _ "chunk # ds"] exI [of _ "shown @ ts"]) (simp add: same s Some)
  qed
qed

lemma requestChunks_failure:
  assumes "\<exists>k < length chunks. isFailure (net (length (sent st) + k))"
  shows "\<exists>msg. fst (requestChunks net chunks j bufs st) = Inl (JsError msg) \<and> msg \<noteq> []"
  using assms
proof (induction chunks arbitrary: j bufs st)
  case Nil
  then show ?case by simp
next
  case (Cons chunk rest)
  obtain audioData shown where s: "sendTextForTTS (net (length (sent st))) chunk j = (audioData, shown)"
    by (cases "sendTextForTTS (net (length (sent st))) chunk j")
  show ?case
  proof (cases audioData)
    case None
    with s show ?thesis by simp
  next
    case (Some data)
    with s sendTextForTTS_None_iff [of "net (length (sent st))" chunk j]
    have ok: "\<not> isFailure (net (length (sent st)))" by simp
    from Cons.prems obtain k where k: "k < Suc (length rest)" "isFailure (net (length (sent st) + k))"
      by auto
    with ok have "k \<noteq> 0" by (cases k) auto
    then obtain k' where "k = Suc k'" by (cases k) auto
    with k have "\<exists>k' < length rest.
        isFailure (net (length (sent (st\<lparr>sent := sent st @ [chunk], toasts := toasts st @ shown\<rparr>)) + k'))"
      by auto
    from Cons.IH [OF this, of "j + 1" "bufs @ [data]"] s Some show ?thesis by simp
  qed
qed


lemma splitLoop_error_message:
  assumes "1 \<le> m" "splitLoop s m cur chunks = Some (Inl (JsError msg))"
  shows "msg \<noteq> []"
  using assms(2)
proof (induction "nat (int (length s) - cur)" arbitrary: cur chunks rule: less_induct)
  case less
  show ?case
  proof (cases "cur < int (length s)")
    case False
    with less.prems show ?thesis by (subst (asm) splitLoop.simps) simp
  next
    case True
    show ?thesis
    proof (cases "splitEndIndex s m cur")
      case (Inl e)
      with True less.prems have "splitEndIndex s m cur = Inl (JsError msg)"
        by (subst (asm) splitLoop.simps) simp
      then show ?thesis by (auto simp: splitEndIndex_def Let_def split: if_splits)
    next
      case (Inr e)
      with assms(1) have "cur < e" by (rule splitEndIndex_progress)
      with True have dec: "nat (int (length s) - e) < nat (int (length s) - cur)" by simp
      have "splitLoop s m e (let chunk = trim (slice s cur e) in
          if chunk \<noteq> [] then chunks @ [chunk] else chunks) = Some (Inl (JsError msg))"
        using less.prems True Inr by (subst (asm) splitLoop.simps) (simp add: Let_def)
      from less.hyps [OF dec this] show ?thesis .
    qed
  qed
qed

lemma tryConvert_frame:
  assumes "\<And>n. net (length (sent st) + n) = net2 (length (sent st2) + n)"
  shows "\<exists>r ds ts.
     tryConvert merge net output st = Some (r, st\<lparr>sent := sent st @ ds, toasts := toasts st @ ts\<rparr>) \<and>
     tryConvert merge net2 output st2 = Some (r, st2\<lparr>sent := sent st2 @ ds, toasts := toasts st2 @ ts\<rparr>)"
proof -
  let ?t = "removeExtraWhitespaces (sourceText output)"
  from splitTextIntoChunks_CHUNK_SIZE_total obtain r where r: "splitTextIntoChunks ?t CHUNK_SIZE = Some r"
    by blast
  show ?thesis
  proof (cases r)
    case (Inl e)
    show ?thesis
      by (intro exI [of _ "Inl e"] exI [of _ "[]"]) (simp add: tryConvert_def r Inl)
  next
    case (Inr chunks)
    from requestChunks_frame [of net st net2 st2 chunks 0 "[]", OF assms] obtain ds ts where
      a: "requestChunks net chunks 0 [] st =
           (fst (requestChunks net2 chunks 0 [] st2),
            st\<lparr>sent := sent st @ ds, toasts := toasts st @ ts\<rparr>)"
      and b: "snd (requestChunks net2 chunks 0 [] st2) =
            st2\<lparr>sent := sent st2 @ ds, toasts := toasts st2 @ ts\<rparr>"
      by blast
    obtain q where q: "fst (requestChunks net2 chunks 0 [] st2) = q" by simp
    from b q have c: "requestChunks net2 chunks 0 [] st2 =
        (q, st2\<lparr>sent := sent st2 @ ds, toasts := toasts st2 @ ts\<rparr>)"
      by (metis prod.collapse)
    show ?thesis
    proof (cases q)
      case (Inl e)
      show ?thesis
        by (intro exI [of _ "Inl e"] exI [of _ ds] exI [of _ ts])
          (simp add: tryConvert_def r Inr a c q Inl)
    next
      case bufs: (Inr audioBuffers)
      show ?thesis
        by (intro exI [of _ "merge audioBuffers"] exI [of _ ds] exI [of _ ts])
          (simp add: tryConvert_def r Inr a c q bufs split: sum.splits)
    qed
  qed
qed

lemma tryConvert_failure:
  assumes "conversionFails net (length (sent st)) output"
  shows "\<exists>msg st'. tryConvert merge net output st = Some (Inl (JsError msg), st') \<and> msg \<noteq> []"
proof -
  let ?t = "removeExtraWhitespaces (sourceText output)"
  from splitTextIntoChunks_CHUNK_SIZE_total obtain r where r: "splitTextIntoChunks ?t CHUNK_SIZE = Some r"
    by blast
  show ?thesis
  proof (cases r)
    case (Inl e)
    obtain msg where e: "e = JsError msg" by (cases e)
    have "msg \<noteq> []"
      using r Inl e splitLoop_error_message [of CHUNK_SIZE "removeExtraWhitespaces ?t" 0 "[]" msg]
      by (simp add: splitTextIntoChunks_def CHUNK_SIZE_def)
    then show ?thesis by (simp add: tryConvert_def r Inl e)
  next
    case (Inr chunks)
    with assms r have "\<exists>k < length chunks. isFailure (net (length (sent st) + k))"
      by (auto simp: conversionFails_def list_ex_iff)
    from requestChunks_failure [OF this, of 0 "[]"] obtain msg where
      m: "fst (requestChunks net chunks 0 [] st) = Inl (JsError msg)" "msg \<noteq> []" by blast
    then obtain st' where "requestChunks net chunks 0 [] st = (Inl (JsError msg), st')"
      by (metis prod.collapse)
    with m(2) show ?thesis by (simp add: tryConvert_def r Inr)
  qed
qed


lemma blank_iff: "(t = [] \<or> length (trim t) = 0) \<longleftrightarrow> list_all isWhitespace t"
  by (auto simp: trim_eq_Nil_iff list_all_iff)

lemma convertItem_blank:
  assumes "list_all isWhitespace (sourceText (updatedOutputs st ! i))"
  shows "convertItem merge net i st =
     Some (st\<lparr>updatedOutputs := (updatedOutputs st)
       [i := (updatedOutputs st ! i)\<lparr>status := failed, error := Some ''No text to convert''\<rparr>]\<rparr>)"
  using assms blank_iff [of "sourceText (updatedOutputs st ! i)"]
  by (simp add: convertItem_def Let_def)

text \<open>
  One iteration changes the entry \<open>i\<close> only, and what it does depends on that entry and on
  the outcomes from the first request of the iteration on.
\<close>

lemma convertItem_frame:
  assumes net: "\<And>n. net (length (sent st) + n) = net2 (length (sent st2) + n)"
    and out: "updatedOutputs st ! i = updatedOutputs st2 ! i2"
  shows "\<exists>out' ds ts.
     convertItem merge net i st =
       Some (st\<lparr>updatedOutputs := (updatedOutputs st)[i := out'],
                sent := sent st @ ds, toasts := toasts st @ ts\<rparr>) \<and>
     convertItem merge net2 i2 st2 =
       Some (st2\<lparr>updatedOutputs := (updatedOutputs st2)[i2 := out'],
                 sent := sent st2 @ ds, toasts := toasts st2 @ ts\<rparr>) \<and>
     (status out' = success \<or> status out' = failed)"
proof (cases "list_all isWhitespace (sourceText (updatedOutputs st ! i))")
  case True
  let ?out = "(updatedOutputs st ! i)\<lparr>status := failed, error := Some ''No text to convert''\<rparr>"
  from True out have "list_all isWhitespace (sourceText (updatedOutputs st2 ! i2))" by simp
  from convertItem_blank [OF True, of merge net] convertItem_blank [OF this, of merge net2] out
  show ?thesis
    by (intro exI [of _ ?out] exI [of _ "[]"]) simp
next
  case False
  let ?output = "updatedOutputs st ! i"
  let ?st = "st\<lparr>updatedOutputs := (updatedOutputs st)[i := ?output\<lparr>status := processing\<rparr>]\<rparr>"
  let ?st2 = "st2\<lparr>updatedOutputs := (updatedOutputs st2)[i2 := ?output\<lparr>status := processing\<rparr>]\<rparr>"
  have "\<And>n. net (length (sent ?st) + n) = net2 (length (sent ?st2) + n)" using net by simp
  from tryConvert_frame [of net ?st net2 ?st2 merge ?output, OF this] obtain r ds ts where
    a: "tryConvert merge net ?output ?st =
          Some (r, ?st\<lparr>sent := sent ?st @ ds, toasts := toasts ?st @ ts\<rparr>)"
    and b: "tryConvert merge net2 ?output ?st2 =
          Some (r, ?st2\<lparr>sent := sent ?st2 @ ds, toasts := toasts ?st2 @ ts\<rparr>)"
    by blast
  have nb: "\<not> (sourceText ?output = [] \<or> length (trim (sourceText ?output)) = 0)"
    using False blank_iff [of "sourceText ?output"] by simp
  show ?thesis
  proof (cases r)
    case (Inl e)
    obtain msg where e: "e = JsError msg" by (cases e)
    show ?thesis
      using nb a b out
      by (intro exI [of _ "?output\<lparr>status := failed, error := Some msg\<rparr>"] exI [of _ ds] exI [of _ ts])
        (simp add: convertItem_def Let_def Inl e)
  next
    case (Inr url)
    show ?thesis
      using nb a b out
      by (intro exI [of _ "?output\<lparr>status := success, audioUrl := Some url\<rparr>"] exI [of _ ds] exI [of _ ts])
        (simp add: convertItem_def Let_def Inr)
  qed
qed

lemma convertItem_failure:
  assumes "conversionFails net (length (sent st)) (updatedOutputs st ! i)" "i < length (updatedOutputs st)"
  shows "\<exists>st' msg. convertItem merge net i st = Some st' \<and>
     status (updatedOutputs st' ! i) = failed \<and> error (updatedOutputs st' ! i) = Some msg \<and> msg \<noteq> []"
proof (cases "list_all isWhitespace (sourceText (updatedOutputs st ! i))")
  case True
  from convertItem_blank [OF True, of merge net] assms(2) show ?thesis by simp
next
  case False
  let ?output = "updatedOutputs st ! i"
  let ?st = "st\<lparr>updatedOutputs := (updatedOutputs st)[i := ?output\<lparr>status := processing\<rparr>]\<rparr>"
  have "conversionFails net (length (sent ?st)) ?output" using assms(1) by simp
  from tryConvert_failure [OF this, of merge] obtain msg st' where
    t: "tryConvert merge net ?output ?st = Some (Inl (JsError msg), st')" "msg \<noteq> []" by blast
  from tryConvert_frame [of net ?st net ?st merge ?output] t(1)
  have len: "length (updatedOutputs st') = length (updatedOutputs st)" by auto
  have nb: "\<not> (sourceText ?output = [] \<or> length (trim (sourceText ?output)) = 0)"
    using False blank_iff [of "sourceText ?output"] by simp
  show ?thesis using nb t len assms(2) by (simp add: convertItem_def Let_def)
qed


lemma sendTextForTTS_response:
  "\<not> isFailure r \<Longrightarrow> sendTextForTTS r t j = (Some (responseData r), [])"
  by (cases r) (simp_all add: sendTextForTTS_def isFailure_def responseData_def)

lemma requestChunks_success:
  assumes "\<forall>j < length chunks. \<not> isFailure (net (length (sent st) + j))"
  shows "requestChunks net chunks j0 bufs st =
     (Inr (bufs @ map (\<lambda>j. responseData (net (length (sent st) + j))) [0 ..< length chunks]),
      st\<lparr>sent := sent st @ chunks\<rparr>)"
  using assms
proof (induction chunks arbitrary: j0 bufs st)
  case Nil
  show ?case by simp
next
  case (Cons chunk rest)
  let ?st = "st\<lparr>sent := sent st @ [chunk], toasts := toasts st @ []\<rparr>"
  from Cons.prems have first: "\<not> isFailure (net (length (sent st)))" by force
  have rest: "\<forall>j < length rest. \<not> isFailure (net (length (sent ?st) + j))"
  proof (intro allI impI)
    fix j assume "j < length rest"
    then have "Suc j < length (chunk # rest)" by simp
    with Cons.prems have "\<not> isFailure (net (length (sent st) + Suc j))" by blast
    then show "\<not> isFailure (net (length (sent ?st) + j))" by simp
  qed
  have "map (\<lambda>j. responseData (net (length (sent st) + j))) [0 ..< Suc (length rest)] =
      responseData (net (length (sent st))) #
      map (\<lambda>j. responseData (net (length (sent ?st) + j))) [0 ..< length rest]"
    by (simp add: map_upt_Suc del: upt_Suc)
  with Cons.IH [OF rest, of "j0 + 1" "bufs @ [responseData (net (length (sent st)))]"]
    sendTextForTTS_response [OF first, of chunk j0]
  show ?case by simp
qed

lemma tryConvert_success:
  assumes "conversionSucceeds merge net (length (sent st)) output mergedAudioBlob"
  shows "\<exists>st'. tryConvert merge net output st = Some (Inr mergedAudioBlob, st') \<and>
     updatedOutputs st' = updatedOutputs st"
proof -
  let ?t = "removeExtraWhitespaces (sourceText output)"
  from assms obtain chunks where c: "splitTextIntoChunks ?t CHUNK_SIZE = Some (Inr chunks)"
    "\<not> list_ex (\<lambda>j. isFailure (net (length (sent st) + j))) [0 ..< length chunks]"
    "merge (map (\<lambda>j. responseData (net (length (sent st) + j))) [0 ..< length chunks]) =
       Inr mergedAudioBlob"
    by (auto simp: conversionSucceeds_def split: option.splits sum.splits)
  from c(2) have "\<forall>j < length chunks. \<not> isFailure (net (length (sent st) + j))"
    by (simp add: list_ex_iff)
  from requestChunks_success [OF this, of 0 "[]"] c(1,3) show ?thesis
    by (simp add: tryConvert_def)
qed

lemma convertItem_success:
  assumes "conversionSucceeds merge net (length (sent st)) (updatedOutputs st ! i) mergedAudioBlob"
    and "i < length (updatedOutputs st)"
  shows "\<exists>st'. convertItem merge net i st = Some st' \<and>
     length (updatedOutputs st') = length (updatedOutputs st) \<and>
     updatedOutputs st' ! i =
       (updatedOutputs st ! i)\<lparr>status := success, audioUrl := Some mergedAudioBlob\<rparr>"
proof -
  let ?output = "updatedOutputs st ! i"
  let ?st = "st\<lparr>updatedOutputs := (updatedOutputs st)[i := ?output\<lparr>status := processing\<rparr>]\<rparr>"
  from assms(1) have nb: "\<not> list_all isWhitespace (sourceText ?output)"
    by (simp add: conversionSucceeds_def)
  then have nb': "\<not> (sourceText ?output = [] \<or> length (trim (sourceText ?output)) = 0)"
    using blank_iff [of "sourceText ?output"] by simp
  have "conversionSucceeds merge net (length (sent ?st)) ?output mergedAudioBlob"
    using assms(1) by simp
  from tryConvert_success [OF this] obtain st' where
    t: "tryConvert merge net ?output ?st = Some (Inr mergedAudioBlob, st')"
    "updatedOutputs st' = updatedOutputs ?st" by blast
  show ?thesis using nb' t assms(2) by (simp add: convertItem_def Let_def)
qed

lemma convertItem_shape:
  "\<exists>out' ds ts.
     convertItem merge net i st =
       Some (st\<lparr>updatedOutputs := (updatedOutputs st)[i := out'],
                sent := sent st @ ds, toasts := toasts st @ ts\<rparr>) \<and>
     (status out' = success \<or> status out' = failed)"
  using convertItem_frame [of net st net st i i merge] by auto

lemma convertLoop_invariant:
  assumes "n \<le> length outputs"
  shows "\<exists>st. convertLoop merge net n (startOfRun outputs) = Some st \<and>
     length (updatedOutputs st) = length outputs \<and>
     (\<forall>k. n \<le> k \<longrightarrow> updatedOutputs st ! k = outputs ! k) \<and>
     (\<forall>k < n. status (updatedOutputs st ! k) = success \<or> status (updatedOutputs st ! k) = failed)"
  using assms
proof (induction n)
  case 0
  then show ?case by (simp add: startOfRun_def)
next
  case (Suc n)
  then obtain st where st: "convertLoop merge net n (startOfRun outputs) = Some st"
    "length (updatedOutputs st) = length outputs"
    "\<forall>k. n \<le> k \<longrightarrow> updatedOutputs st ! k = outputs ! k"
    "\<forall>k < n. status (updatedOutputs st ! k) = success \<or> status (updatedOutputs st ! k) = failed"
    by auto
  from convertItem_shape [of merge net n st] obtain out' ds ts where
    it: "convertItem merge net n st =
       Some (st\<lparr>updatedOutputs := (updatedOutputs st)[n := out'],
                sent := sent st @ ds, toasts := toasts st @ ts\<rparr>)"
    and fin: "status out' = success \<or> status out' = failed" by blast
  have "\<forall>k < Suc n. status ((updatedOutputs st)[n := out'] ! k) = success \<or>
      status ((updatedOutputs st)[n := out'] ! k) = failed"
    using st(2,4) fin Suc.prems by (auto simp: nth_list_update less_Suc_eq)
  with st it show ?case by simp
qed

lemma convertLoop_stable:
  assumes "convertLoop merge net n (startOfRun outputs) = Some st"
    and "convertLoop merge net (n + d) (startOfRun outputs) = Some st'"
    and "k < n"
  shows "updatedOutputs st' ! k = updatedOutputs st ! k"
  using assms(2)
proof (induction d arbitrary: st')
  case 0
  with assms(1) show ?case by simp
next
  case (Suc d)
  then obtain mid where mid: "convertLoop merge net (n + d) (startOfRun outputs) = Some mid"
    "convertItem merge net (n + d) mid = Some st'"
    by (auto split: option.splits)
  from convertItem_shape [of merge net "n + d" mid] mid(2) obtain out' where
    "updatedOutputs st' = (updatedOutputs mid)[n + d := out']" by auto
  with Suc.IH [OF mid(1)] assms(3) show ?case by simp
qed

lemma convertMultiple_result:
  assumes "apiKey \<noteq> []"
  shows "\<exists>st. convertLoop merge net (length outputs) (startOfRun outputs) = Some st \<and>
     length (updatedOutputs st) = length outputs \<and>
     convertMultiple merge net apiKey outputs =
       Some (st\<lparr>toasts := toasts st @
         (let successCount = length (filter (\<lambda>out. status out = success) (updatedOutputs st))
          in if 0 < successCount
             then [\<lparr>title = ''Success'',
                    description = ''Generated '' @ decimal successCount @ '' audio file'' @
                      (if 1 < successCount then ''s'' else []) @ '' successfully!'',
                    variant = None\<rparr>]
             else [])\<rparr>)"
proof -
  from convertLoop_invariant [of "length outputs" outputs merge net] obtain st where
    "convertLoop merge net (length outputs) (startOfRun outputs) = Some st"
    "length (updatedOutputs st) = length outputs" by auto
  with assms show ?thesis
    by (simp add: convertMultiple_def startOfRun_def [symmetric] Let_def)
qed


subsection \<open>A long text of short sentences\<close>

text \<open>
  \<open>lastIndexOf\<close> finds the greatest index at or before the position; so the window search of
  \<open>splitTextIntoChunks\<close> never throws on a text that has a period in every window, and the
  text of 50001 sentences \<open>a.\<close> (100002 characters, no whitespace) is segmented.
\<close>

lemma find_rev_upt_greatest:
  assumes "List.find P (rev [0 ..< n]) = Some r" "r < j" "j < n"
  shows "\<not> P j"
proof -
  from assms(1) obtain i where i: "i < n" "r = rev [0 ..< n] ! i"
    "\<forall>j < i. \<not> P (rev [0 ..< n] ! j)"
    by (auto simp: find_Some_iff)
  have r: "r = n - Suc i" using i(1,2) by (simp add: rev_nth)
  have "n - Suc j < i" using r assms(2,3) i(1) by arith
  with i(3) have "\<not> P (rev [0 ..< n] ! (n - Suc j))" by blast
  moreover have "rev [0 ..< n] ! (n - Suc j) = j" using assms(3) by (simp add: rev_nth)
  ultimately show ?thesis by simp
qed

lemma lastIndexOf_greatest:
  assumes "k < length s" "int k \<le> pos" "s ! k = c"
  shows "int k \<le> lastIndexOf s c pos"
proof -
  let ?n = "min (nat (max pos 0) + 1) (length s)"
  have k: "k < ?n" using assms(1,2) by simp
  show ?thesis
  proof (cases "List.find (\<lambda>k. s ! k = c) (rev [0 ..< ?n])")
    case None
    then have "\<not> s ! k = c" using k by (auto simp: find_None_iff)
    with assms(3) show ?thesis by simp
  next
    case (Some r)
    have "\<not> r < k" using find_rev_upt_greatest [OF Some _ k] assms(3) by blast
    with Some show ?thesis by (simp add: lastIndexOf_def)
  qed
qed

lemma splitEndIndex_window:
  assumes "cur + m < int (length s) \<longrightarrow>
      (\<exists>k. cur < int k \<and> int k \<le> cur + m \<and> k < length s \<and> s ! k = period_char)"
  shows "\<exists>e. splitEndIndex s m cur = Inr e"
proof (cases "cur + m < int (length s)")
  case True
  with assms obtain k where "cur < int k" "int k \<le> cur + m" "k < length s" "s ! k = period_char"
    by blast
  with lastIndexOf_greatest [of k s "cur + m" period_char]
  have "cur < lastIndexOf s period_char (cur + m)" by simp
  with True show ?thesis by (simp add: splitEndIndex_def Let_def)
next
  case False
  then show ?thesis by (simp add: splitEndIndex_def Let_def)
qed

lemma splitLoop_returns:
  assumes m: "1 \<le> m"
    and window: "\<And>cur. 0 \<le> cur \<Longrightarrow> cur + m < int (length s) \<Longrightarrow>
      \<exists>k. cur < int k \<and> int k \<le> cur + m \<and> k < length s \<and> s ! k = period_char"
    and "0 \<le> cur"
  shows "\<exists>chunks. splitLoop s m cur acc = Some (Inr chunks)"
  using assms(3)
proof (induction "nat (int (length s) - cur)" arbitrary: cur acc rule: less_induct)
  case less
  show ?case
  proof (cases "cur < int (length s)")
    case False
    then show ?thesis by (subst splitLoop.simps) simp
  next
    case True
    from splitEndIndex_window [of cur m s] window [OF less.prems]
    obtain e where e: "splitEndIndex s m cur = Inr e" by blast
    with m have "cur < e" by (rule splitEndIndex_progress)
    with True less.prems have "nat (int (length s) - e) < nat (int (length s) - cur)" "0 \<le> e"
      by simp_all
    from less.hyps [OF this] e True show ?thesis
      by (subst splitLoop.simps) (simp add: Let_def)
  qed
qed

lemma nth_concat_replicate_pair:
  "k < 2 * n \<Longrightarrow> concat (replicate n [a, b]) ! k = (if even k then a else b)"
proof (induction n arbitrary: k)
  case 0
  then show ?case by simp
next
  case (Suc n)
  show ?case
  proof (cases "k < 2")
    case True
    then have "k = 0 \<or> k = 1" by auto
    then show ?thesis by auto
  next
    case False
    then obtain k' where k': "k = Suc (Suc k')" by (metis less_2_cases_iff not0_implies_Suc)
    with Suc.prems have "k' < 2 * n" by simp
    from Suc.IH [OF this] k' show ?thesis by simp
  qed
qed

lemma shortSentences_eq: "shortSentences = concat (replicate 50001 [0x61, period_char])"
  by (simp add: shortSentences_def js_def period_char_def)

lemma shortSentences_length: "length shortSentences = 100002"
  by (simp add: shortSentences_eq length_concat sum_list_replicate)

lemma shortSentences_no_whitespace: "\<forall>c \<in> set shortSentences. \<not> isWhitespace c"
  by (auto simp: shortSentences_eq isWhitespace_def period_char_def)

lemma shortSentences_normalized: "removeExtraWhitespaces shortSentences = shortSentences"
  using shortSentences_no_whitespace by (rule removeExtraWhitespaces_id)

lemma shortSentences_window:
  assumes "0 \<le> cur" "cur + CHUNK_SIZE < int (length shortSentences)"
  shows "\<exists>k. cur < int k \<and> int k \<le> cur + CHUNK_SIZE \<and> k < length shortSentences \<and>
     shortSentences ! k = period_char"
proof -
  define k where "k = (if even (nat cur) then nat cur + 1 else nat cur + 2)"
  have odd: "odd k" by (simp add: k_def)
  have bounds: "cur < int k" "int k \<le> cur + CHUNK_SIZE" "k < length shortSentences"
    using assms by (auto simp: k_def CHUNK_SIZE_def)
  then have "k < 2 * 50001" by (simp add: shortSentences_length)
  from nth_concat_replicate_pair [OF this, of "0x61" period_char] odd
  have "shortSentences ! k = period_char" by (simp add: shortSentences_eq)
  with bounds show ?thesis by blast
qed

lemma shortSentences_segmented:
  "\<exists>chunks. splitTextIntoChunks (removeExtraWhitespaces shortSentences) CHUNK_SIZE =
     Some (Inr chunks)"
proof -
  have "1 \<le> CHUNK_SIZE" by (simp add: CHUNK_SIZE_def)
  from splitLoop_returns [OF this shortSentences_window, of 0 "[]"]
  show ?thesis by (simp add: splitTextIntoChunks_def shortSentences_normalized)
qed

lemma shortSentences_converted:
  "\<exists>mergedAudioBlob. conversionSucceeds mergeBuffersConcat everyRequestSucceeds 0
     (jobWithText shortSentences) mergedAudioBlob"
proof -
  from shortSentences_segmented obtain chunks where
    c: "splitTextIntoChunks (removeExtraWhitespaces shortSentences) CHUNK_SIZE = Some (Inr chunks)"
    by blast
  have "\<not> list_all isWhitespace shortSentences"
    using shortSentences_no_whitespace shortSentences_length
    by (cases shortSentences) (auto simp: list_all_iff)
  with c show ?thesis
    by (simp add: conversionSucceeds_def jobWithText_def mergeBuffersConcat_def list_ex_iff
        isFailure_def everyRequestSucceeds_def)
qed
section \<open>Segmentation\<close>

text \<open>
  Claim C9. For every input string and every \<open>maxChunkSize \<ge> 1\<close>, \<open>splitTextIntoChunks\<close>
  terminates: it returns an array or throws (the result is never \<open>None\<close>), because an
  iteration that does not throw ends with an \<open>endIndex\<close> strictly greater than
  \<open>currentIndex\<close>.
\<close>

theorem splitTextIntoChunks_terminates:
  assumes "1 \<le> maxChunkSize"
  shows "(\<exists>r. splitTextIntoChunks text maxChunkSize = Some r) \<and>
         (\<forall>s currentIndex endIndex.
            splitEndIndex s maxChunkSize currentIndex = Inr endIndex \<longrightarrow>
            currentIndex < endIndex)"
  using assms splitLoop_total [of maxChunkSize] splitEndIndex_progress [of maxChunkSize]
  unfolding splitTextIntoChunks_def by blast

theorem splitTextIntoChunks_terminates_witness:
  "(1::int) \<le> 2 \<and> (\<exists>r. splitTextIntoChunks (js ''abc.de'') 2 = Some r) \<and>
   (splitEndIndex (js ''abc.de'') 2 0 = Inr 4 \<and> (0::int) < 4)"
proof -
  have "(1::int) \<le> 2" by simp
  from splitTextIntoChunks_terminates [OF this, of "js ''abc.de''"]
  have "\<exists>r. splitTextIntoChunks (js ''abc.de'') 2 = Some r" by blast
  moreover have "splitEndIndex (js ''abc.de'') 2 0 = Inr 4" by code_simp
  ultimately show ?thesis by simp
qed

text \<open>
  Claim C1, as stated: every chunk returned by \<open>splitTextIntoChunks\<close> has at most
  \<open>1.5 \<times> maxChunkSize\<close> characters. It fails: a chunk ends just after the period that the
  forward search finds, and the test of the loop bounds the distance to that period, not
  the length of the chunk. With \<open>maxChunkSize = 2\<close> the text \<open>abc.de\<close> gives the chunk
  \<open>abc.\<close> of four characters.
\<close>

theorem splitTextIntoChunks_lenient_bound_counterexample:
  "splitTextIntoChunks (js ''abc.de'') 2 = Some (Inr [js ''abc.'', js ''de'']) \<and>
   \<not> 2 * int (length (js ''abc.'')) \<le> 3 * 2"
proof -
  have "splitTextIntoChunks (js ''abc.de'') 2 = Some (Inr [js ''abc.'', js ''de''])"
    by code_simp
  then show ?thesis by (simp add: js_def)
qed

text \<open>
  Claim C1, amended: for every input text and every \<open>maxChunkSize \<ge> 1\<close> on which
  \<open>splitTextIntoChunks\<close> returns normally, every chunk of the returned array has length at
  most \<open>1.5 \<times> maxChunkSize + 1\<close>.
\<close>

theorem splitTextIntoChunks_chunk_length:
  assumes "1 \<le> maxChunkSize"
    and "splitTextIntoChunks text maxChunkSize = Some (Inr chunks)"
    and "chunk \<in> set chunks"
  shows "2 * int (length chunk) \<le> 3 * maxChunkSize + 2"
  using splitLoop_chunk_bound [of maxChunkSize 0 "[]" "removeExtraWhitespaces text" chunks] assms
  unfolding splitTextIntoChunks_def by simp

theorem splitTextIntoChunks_chunk_length_witness:
  "(1::int) \<le> 2 \<and> splitTextIntoChunks (js ''abc.de'') 2 = Some (Inr [js ''abc.'', js ''de'']) \<and>
   js ''abc.'' \<in> set [js ''abc.'', js ''de''] \<and> 2 * int (length (js ''abc.'')) \<le> 3 * 2 + 2"
proof -
  have a: "(1::int) \<le> 2" by simp
  have b: "splitTextIntoChunks (js ''abc.de'') 2 = Some (Inr [js ''abc.'', js ''de''])"
    by code_simp
  have c: "js ''abc.'' \<in> set [js ''abc.'', js ''de'']" by simp
  from splitTextIntoChunks_chunk_length [OF a b c] a b c show ?thesis by simp
qed

text \<open>
  Claim C2. Let the normalized text be a single sentence longer than the limit: it has no
  period at or before position \<open>maxChunkSize\<close>, and its first period, or its end when it
  has no period, lies more than the threshold past the start (\<open>1.5 \<times> maxChunkSize\<close> for
  \<open>splitTextIntoChunks\<close>, \<open>CHUNK_SIZE\<close> for the generator \<open>chunkText\<close>). Then
  segmentation throws the error whose message names the limit, and no chunk is returned
  or yielded.
\<close>

theorem long_single_sentence_throws:
  assumes "1 \<le> maxChunkSize"
    and "s = removeExtraWhitespaces text"
    and "period_char \<notin> set (take (nat maxChunkSize + 1) s)"
  shows "(3 * maxChunkSize < 2 * int (sentenceEnd s) \<longrightarrow>
            splitTextIntoChunks text maxChunkSize =
              Some (Inl (JsError (''Sentence exceeds chunk size limit of '' @
                show_int maxChunkSize @
                '' characters. Consider adding sentence breaks to your text.'')))) \<and>
         (maxChunkSize = CHUNK_SIZE \<and> maxChunkSize < int (sentenceEnd s) \<longrightarrow>
            chunkText text =
              Some ([], Some (JsError (''Sentence exceeds chunk size limit of '' @
                show_int maxChunkSize @ '' characters.''))))"
proof (intro conjI impI)
  assume "3 * maxChunkSize < 2 * int (sentenceEnd s)"
  from splitEndIndex_long_sentence [OF assms(1,3) this]
  show "splitTextIntoChunks text maxChunkSize =
      Some (Inl (JsError (''Sentence exceeds chunk size limit of '' @ show_int maxChunkSize @
        '' characters. Consider adding sentence breaks to your text.'')))"
    unfolding splitTextIntoChunks_def assms(2) [symmetric]
    by (subst splitLoop.simps) simp
next
  assume a: "maxChunkSize = CHUNK_SIZE \<and> maxChunkSize < int (sentenceEnd s)"
  have "show_int CHUNK_SIZE = ''4000''" by (simp add: show_int_def CHUNK_SIZE_def)
  with chunkEndIndex_long_sentence [of s] assms(3) a
  show "chunkText text = Some ([], Some (JsError (''Sentence exceeds chunk size limit of '' @
      show_int maxChunkSize @ '' characters.'')))"
    unfolding chunkText_def assms(2) [symmetric]
    by (subst chunkLoop.simps) simp
qed

theorem long_single_sentence_throws_witness:
  "(1::int) \<le> 4000 \<and>
   period_char \<notin> set (take (nat 4000 + 1) (removeExtraWhitespaces (replicate 7000 0x61))) \<and>
   3 * 4000 < 2 * int (sentenceEnd (removeExtraWhitespaces (replicate 7000 0x61))) \<and>
   splitTextIntoChunks (replicate 7000 0x61) 4000 =
     Some (Inl (JsError ''Sentence exceeds chunk size limit of 4000 characters. Consider adding sentence breaks to your text.'')) \<and>
   chunkText (replicate 7000 0x61) =
     Some ([], Some (JsError ''Sentence exceeds chunk size limit of 4000 characters.''))"
proof -
  have s: "removeExtraWhitespaces (replicate 7000 0x61) = replicate 7000 0x61"
    by (rule removeExtraWhitespaces_id) (simp add: isWhitespace_def)
  have a: "(1::int) \<le> 4000" by simp
  have b: "period_char \<notin> set (take (nat 4000 + 1) (replicate 7000 (0x61::jschar)))"
    by (simp add: period_char_def)
  have c: "sentenceEnd (replicate 7000 0x61) = 7000"
    by (simp add: sentenceEnd_def period_char_def takeWhile_replicate)
  have d: "show_int 4000 = ''4000''" by (simp add: show_int_def)
  from long_single_sentence_throws [OF a s [symmetric] b] a b c d s
  show ?thesis by (simp add: CHUNK_SIZE_def)
qed

text \<open>
  Claim C4, as stated: for a text with no run of non-whitespace characters longer than
  \<open>maxChunkSize\<close> without a period, the trimmed chunks joined by single spaces are the
  normalized text. It fails in two ways. The loop cuts after a period whatever follows it:
  with \<open>maxChunkSize = 3\<close> the text \<open>a.b c.\<close> gives the chunks \<open>a.\<close> and \<open>b c.\<close>, and
  joining them puts a space inside \<open>a.b\<close>. And the loop cuts at periods only: the text
  \<open>aaa bbb ccc\<close> has no run longer than 3, and segmentation throws.
\<close>

theorem splitTextIntoChunks_rejoin_counterexample:
  "int (longestPlainRun (js ''a.b c.'') 0) \<le> 3 \<and>
   splitTextIntoChunks (js ''a.b c.'') 3 = Some (Inr [js ''a.'', js ''b c.'']) \<and>
   joinWith [space_char] (map trim [js ''a.'', js ''b c.'']) = js ''a. b c.'' \<and>
   removeExtraWhitespaces (js ''a.b c.'') = js ''a.b c.'' \<and>
   js ''a. b c.'' \<noteq> js ''a.b c.'' \<and>
   int (longestPlainRun (js ''aaa bbb ccc'') 0) \<le> 3 \<and>
   splitTextIntoChunks (js ''aaa bbb ccc'') 3 =
     Some (Inl (JsError ''Sentence exceeds chunk size limit of 3 characters. Consider adding sentence breaks to your text.''))"
proof (intro conjI)
  show "int (longestPlainRun (js ''a.b c.'') 0) \<le> 3" by code_simp
  show "splitTextIntoChunks (js ''a.b c.'') 3 = Some (Inr [js ''a.'', js ''b c.''])" by code_simp
  show "joinWith [space_char] (map trim [js ''a.'', js ''b c.'']) = js ''a. b c.''" by code_simp
  show "removeExtraWhitespaces (js ''a.b c.'') = js ''a.b c.''" by code_simp
  show "js ''a. b c.'' \<noteq> js ''a.b c.''" by (simp add: js_def)
  show "int (longestPlainRun (js ''aaa bbb ccc'') 0) \<le> 3" by code_simp
  show "splitTextIntoChunks (js ''aaa bbb ccc'') 3 =
     Some (Inl (JsError ''Sentence exceeds chunk size limit of 3 characters. Consider adding sentence breaks to your text.''))"
    by code_simp
qed

text \<open>
  Claim C4, amended: for every text and every \<open>maxChunkSize \<ge> 1\<close> on which
  \<open>splitTextIntoChunks\<close> returns chunks, if every period of the normalized text other than
  its last character is followed by a space, then trimming each chunk and joining the
  chunks with a single space gives \<open>removeExtraWhitespaces(text)\<close>.
\<close>

theorem splitTextIntoChunks_rejoin:
  assumes "1 \<le> maxChunkSize"
    and "splitTextIntoChunks text maxChunkSize = Some (Inr chunks)"
    and "periodsSpaced (removeExtraWhitespaces text)"
  shows "joinWith [space_char] (map trim chunks) = removeExtraWhitespaces text"
  using assms removeExtraWhitespaces_normal [of "text"]
    splitLoop_rejoin [of maxChunkSize "removeExtraWhitespaces text" chunks]
  unfolding splitTextIntoChunks_def by blast

theorem splitTextIntoChunks_rejoin_witness:
  "(1::int) \<le> 3 \<and>
   splitTextIntoChunks (js ''a. b c.'') 3 = Some (Inr [js ''a.'', js ''b c.'']) \<and>
   periodsSpaced (removeExtraWhitespaces (js ''a. b c.'')) \<and>
   joinWith [space_char] (map trim [js ''a.'', js ''b c.'']) =
     removeExtraWhitespaces (js ''a. b c.'')"
proof -
  have a: "(1::int) \<le> 3" by simp
  have b: "splitTextIntoChunks (js ''a. b c.'') 3 = Some (Inr [js ''a.'', js ''b c.''])"
    by code_simp
  have c: "periodsSpaced (removeExtraWhitespaces (js ''a. b c.''))" by code_simp
  from splitTextIntoChunks_rejoin [OF a b c] a b c show ?thesis by simp
qed

section \<open>The speech request client\<close>

text \<open>
  Claim C6. A failed request makes \<open>sendTextForTTS\<close> return no fragment (\<open>null\<close>), it
  raises nothing, and the message it shows depends on the HTTP status: 401 gives the
  invalid-credential message, 429 the rate-limit message, 500 the upstream-service message,
  any other status (or none) the generic message, and an error that is not an
  \<open>AxiosError\<close> a second generic message. The five messages differ from one another.
\<close>

theorem sendTextForTTS_failure:
  "((\<forall>data. outcome \<noteq> Ok data) \<longrightarrow> fst (sendTextForTTS outcome text chunkIndex) = None) \<and>
   map description (snd (sendTextForTTS (AxiosError (Some 401)) text chunkIndex)) =
     [''Invalid API key. Please check your OpenAI API key.''] \<and>
   map description (snd (sendTextForTTS (AxiosError (Some 429)) text chunkIndex)) =
     [''Rate limit exceeded. Please try again later.''] \<and>
   map description (snd (sendTextForTTS (AxiosError (Some 500)) text chunkIndex)) =
     [''OpenAI service error. Please try again later.''] \<and>
   (httpStatus \<noteq> Some 401 \<and> httpStatus \<noteq> Some 429 \<and> httpStatus \<noteq> Some 500 \<longrightarrow>
      map description (snd (sendTextForTTS (AxiosError httpStatus) text chunkIndex)) =
        [''Failed to generate speech.'']) \<and>
   map description (snd (sendTextForTTS OtherError text chunkIndex)) =
     [''An unexpected error occurred while generating speech.''] \<and>
   distinct [''Invalid API key. Please check your OpenAI API key.'',
     ''Rate limit exceeded. Please try again later.'',
     ''OpenAI service error. Please try again later.'',
     ''Failed to generate speech.'',
     ''An unexpected error occurred while generating speech.'']"
  by (cases outcome) (simp_all add: sendTextForTTS_def)

theorem sendTextForTTS_failure_witness:
  "(\<forall>data. AxiosError (Some 404) \<noteq> Ok data) \<and>
   fst (sendTextForTTS (AxiosError (Some 404)) (js ''Hello.'') 0) = None \<and>
   map description (snd (sendTextForTTS (AxiosError (Some 404)) (js ''Hello.'') 0)) =
     [''Failed to generate speech.'']"
  using sendTextForTTS_failure [of "AxiosError (Some 404)" "js ''Hello.''" 0 "Some 404"]
  by simp

text \<open>
  Claim C7, as stated: with a declared total the reported percentage is
  \<open>floor(bytesReceived / totalBytes \<times> 100)\<close>. It fails: the handler rounds to the nearest
  integer with \<open>Math.round\<close>. Two bytes of three are reported as 67, and the floor is 66.
\<close>

theorem download_percentage_floor_counterexample:
  "onDownloadProgress notReached True 10 \<lparr>loaded = 2, total = Some 3\<rparr> = Some (Finite 67) \<and>
   (67::nat) \<noteq> 2 * 100 div 3"
  by (simp add: onDownloadProgress_def round_quotient_def)

text \<open>
  Claim C7, amended: as long as \<open>bytesReceived \<times> 100\<close> is below \<open>2^52\<close> (about 45 terabytes
  received), where the double division of the code cannot cross a half: with a declared
  non-zero total the reported percentage is \<open>bytesReceived \<times> 100 / totalBytes\<close> rounded to
  the nearest integer, halves upwards (the floor, plus one when the fractional part is at
  least one half); with no total, for a non-empty text, the total is estimated as
  \<open>textLength \<times> 50\<close> bytes and the reported percentage is that rounded quotient capped at
  95.
\<close>

theorem download_percentage:
  assumes "loaded progressEvent * 100 < 2 ^ 52"
  shows "(total progressEvent = Some t \<and> 0 < t \<longrightarrow>
      onDownloadProgress ieee True textLength progressEvent =
        Some (Finite (loaded progressEvent * 100 div t +
          (if t \<le> 2 * (loaded progressEvent * 100 mod t) then 1 else 0)))) \<and>
   ((total progressEvent = None \<or> total progressEvent = Some 0) \<and> 0 < textLength \<longrightarrow>
      (\<exists>p. onDownloadProgress ieee True textLength progressEvent = Some (Finite p) \<and> p \<le> 95 \<and>
         p = min 95 (loaded progressEvent * 100 div (textLength * 50) +
           (if textLength * 50 \<le> 2 * (loaded progressEvent * 100 mod (textLength * 50))
            then 1 else 0))))"
proof (intro conjI impI)
  assume "total progressEvent = Some t \<and> 0 < t"
  then show "onDownloadProgress ieee True textLength progressEvent =
      Some (Finite (loaded progressEvent * 100 div t +
        (if t \<le> 2 * (loaded progressEvent * 100 mod t) then 1 else 0)))"
    using round_div_floor [of t "loaded progressEvent * 100"] assms
    by (simp add: onDownloadProgress_def round_quotient_def)
next
  assume a: "(total progressEvent = None \<or> total progressEvent = Some 0) \<and> 0 < textLength"
  then have "0 < textLength * 50" by simp
  from round_div_floor [OF this, of "loaded progressEvent * 100"] a assms
  show "\<exists>p. onDownloadProgress ieee True textLength progressEvent = Some (Finite p) \<and> p \<le> 95 \<and>
         p = min 95 (loaded progressEvent * 100 div (textLength * 50) +
           (if textLength * 50 \<le> 2 * (loaded progressEvent * 100 mod (textLength * 50))
            then 1 else 0))"
    by (auto simp: onDownloadProgress_def round_quotient_def math_min_def)
qed

theorem download_percentage_witness:
  "loaded \<lparr>loaded = 2, total = Some 3\<rparr> * 100 < 2 ^ 52 \<and>
   loaded \<lparr>loaded = 499, total = None\<rparr> * 100 < 2 ^ 52 \<and>
   onDownloadProgress notReached True 10 \<lparr>loaded = 2, total = Some 3\<rparr> = Some (Finite 67) \<and>
   onDownloadProgress notReached True 10 \<lparr>loaded = 499, total = None\<rparr> = Some (Finite 95)"
proof -
  have a: "loaded \<lparr>loaded = 2, total = Some 3\<rparr> * 100 < 2 ^ 52" by simp
  have b: "loaded \<lparr>loaded = 499, total = None\<rparr> * 100 < 2 ^ 52" by simp
  have "onDownloadProgress notReached True 10 \<lparr>loaded = 2, total = Some 3\<rparr> = Some (Finite 67)"
    using download_percentage [OF a, where t = 3 and textLength = 10 and ieee = notReached]
    by simp
  moreover have
    "onDownloadProgress notReached True 10 \<lparr>loaded = 499, total = None\<rparr> = Some (Finite 95)"
    using download_percentage [OF b, where t = 3 and textLength = 10 and ieee = notReached]
    by simp
  ultimately show ?thesis using a b by simp
qed

section \<open>The batch\<close>

text \<open>
  The theorems of this section hold for every function \<open>merge\<close>, so for \<open>convertMultiple\<close>
  with either \<open>mergeBuffers\<close>.
\<close>

text \<open>
  Claim C8. A job of a batch whose source text is empty or consists of whitespace only is
  set to the status \<open>'error'\<close> at once, with the message \<open>No text to convert\<close> (the
  reason "no content"); its iteration sends no request and shows no toast, and the loop
  goes on: the run ends, and every job of the batch ends as \<open>'success'\<close> or \<open>'error'\<close>.
\<close>

theorem blank_job_skipped:
  assumes "apiKey \<noteq> []" and "i < length outputs"
    and "list_all isWhitespace (sourceText (outputs ! i))"
  shows "\<exists>before after final.
     convertLoop merge net i (startOfRun outputs) = Some before \<and>
     convertLoop merge net (Suc i) (startOfRun outputs) = Some after \<and>
     convertMultiple merge net apiKey outputs = Some final \<and>
     sent after = sent before \<and> toasts after = toasts before \<and>
     updatedOutputs after = (updatedOutputs before)
       [i := (outputs ! i)\<lparr>status := failed, error := Some ''No text to convert''\<rparr>] \<and>
     updatedOutputs final ! i =
       (outputs ! i)\<lparr>status := failed, error := Some ''No text to convert''\<rparr> \<and>
     (\<forall>k < length outputs. status (updatedOutputs final ! k) = success \<or>
        status (updatedOutputs final ! k) = failed)"
proof -
  let ?out = "(outputs ! i)\<lparr>status := failed, error := Some ''No text to convert''\<rparr>"
  from convertLoop_invariant [of i outputs merge net] assms(2)
  obtain before where before:
    "convertLoop merge net i (startOfRun outputs) = Some before"
    "length (updatedOutputs before) = length outputs"
    "updatedOutputs before ! i = outputs ! i" by auto
  let ?after = "before\<lparr>updatedOutputs := (updatedOutputs before)[i := ?out]\<rparr>"
  have item: "convertItem merge net i before = Some ?after"
    using convertItem_blank [of before i merge net] assms(3) before(3)
    by simp
  then have after: "convertLoop merge net (Suc i) (startOfRun outputs) = Some ?after"
    using before(1) by simp
  from convertMultiple_result [OF assms(1), of merge net outputs]
  obtain st final where st:
    "convertLoop merge net (length outputs) (startOfRun outputs) = Some st"
    "convertMultiple merge net apiKey outputs = Some final"
    "updatedOutputs final = updatedOutputs st" by auto
  obtain d where d: "length outputs = Suc i + d"
    using assms(2) by (metis Suc_leI le_Suc_ex)
  have "updatedOutputs st ! i = updatedOutputs ?after ! i"
    using convertLoop_stable [OF after, of d st i] st(1) d by simp
  then have fin: "updatedOutputs final ! i = ?out"
    using st(3) before(2) assms(2) by simp
  have all: "\<forall>k < length outputs. status (updatedOutputs final ! k) = success \<or>
        status (updatedOutputs final ! k) = failed"
    using convertLoop_invariant [of "length outputs" outputs merge net] st(1,3)
    by auto
  from before(1) after st(2) fin all show ?thesis by auto
qed


theorem blank_job_skipped_witness:
  "js ''key'' \<noteq> [] \<and> (1::nat) < length [textJob ''One.'', textJob ''  '', textJob ''Three.''] \<and>
   list_all isWhitespace (sourceText ([textJob ''One.'', textJob ''  '', textJob ''Three.''] ! 1)) \<and>
   (\<exists>before after final.
      convertLoop (mergeBuffers codecThrows) secondRequestFails 1
        (startOfRun [textJob ''One.'', textJob ''  '', textJob ''Three.'']) = Some before \<and>
      convertLoop (mergeBuffers codecThrows) secondRequestFails 2
        (startOfRun [textJob ''One.'', textJob ''  '', textJob ''Three.'']) = Some after \<and>
      convertMultiple (mergeBuffers codecThrows) secondRequestFails (js ''key'')
        [textJob ''One.'', textJob ''  '', textJob ''Three.''] = Some final \<and>
      sent after = sent before \<and>
      status (updatedOutputs final ! 1) = failed \<and>
      error (updatedOutputs final ! 1) = Some ''No text to convert'')"
proof -
  let ?outputs = "[textJob ''One.'', textJob ''  '', textJob ''Three.'']"
  have a: "js ''key'' \<noteq> []" by (simp add: js_def)
  have b: "1 < length ?outputs" by simp
  have c: "list_all isWhitespace (sourceText (?outputs ! 1))"
    by (simp add: textJob_def jobWithText_def js_def isWhitespace_def)
  from blank_job_skipped [OF a b c, of "mergeBuffers codecThrows" secondRequestFails]
  obtain before after final where f:
    "convertLoop (mergeBuffers codecThrows) secondRequestFails 1 (startOfRun ?outputs) = Some before"
    "convertLoop (mergeBuffers codecThrows) secondRequestFails (Suc 1) (startOfRun ?outputs) = Some after"
    "convertMultiple (mergeBuffers codecThrows) secondRequestFails (js ''key'') ?outputs = Some final"
    "sent after = sent before"
    "updatedOutputs final ! 1 = (?outputs ! 1)\<lparr>status := failed, error := Some ''No text to convert''\<rparr>"
    by blast
  have two: "Suc 1 = 2" by simp
  have s: "status (updatedOutputs final ! 1) = failed"
    and e: "error (updatedOutputs final ! 1) = Some ''No text to convert''"
    using f(5) by simp_all
  have "\<exists>before after final.
      convertLoop (mergeBuffers codecThrows) secondRequestFails 1 (startOfRun ?outputs) = Some before \<and>
      convertLoop (mergeBuffers codecThrows) secondRequestFails 2 (startOfRun ?outputs) = Some after \<and>
      convertMultiple (mergeBuffers codecThrows) secondRequestFails (js ''key'') ?outputs = Some final \<and>
      sent after = sent before \<and>
      status (updatedOutputs final ! 1) = failed \<and>
      error (updatedOutputs final ! 1) = Some ''No text to convert''"
    using f(1) f(2) [unfolded two] f(3) f(4) s e by blast
  with a b c show ?thesis by blast
qed

text \<open>
  Claim C3, as stated: when a job of a batch fails, \<open>convertMultiple\<close> marks only that job
  \<open>'error'\<close>, leaves the others as they would be alone, runs the batch to completion and
  reports a success count equal to the number of jobs whose final status is \<open>'success'\<close>.
  The last part fails: the count is reported by a toast that is shown only
  \<open>if (successCount > 0)\<close>. In a batch of one job whose request fails, the job ends as
  \<open>'error'\<close> and the only toast is the error toast of the request: no count is reported.
\<close>

theorem convertMultiple_no_count_counterexample:
  "map_option (\<lambda>st. (map status (updatedOutputs st), map title (toasts st), map description (toasts st)))
     (convertMultiple (mergeBuffers codecThrows) everyRequestFails (js ''key'') [textJob ''One.'']) =
   Some ([failed], [''Error''], [''OpenAI service error. Please try again later.''])"
  by code_simp

text \<open>
  Claim C3, amended: with an API key, \<open>convertMultiple\<close> runs every batch to completion,
  whatever the outcomes of the requests. The final entry of each job is the one that
  \<open>convertMultiple\<close> gives for this job alone, facing the outcomes that the job met in the
  batch (those from its first request on); so a failure changes no other job. A job whose
  conversion fails, because its segmentation throws or one of its requests returns no
  fragment, ends with the status \<open>'error'\<close> and a non-empty message; a job whose conversion
  succeeds ends with the status \<open>'success'\<close> and the merged audio. When at least one job
  ends as \<open>'success'\<close>, the run closes with the toast \<open>Generated n audio file(s)
  successfully!\<close>, where \<open>n\<close> is the number of jobs whose final status is \<open>'success'\<close>; when
  none does, no count is reported.
\<close>

theorem convertMultiple_isolates_failures:
  assumes "apiKey \<noteq> []"
  shows "\<exists>final loopEnd.
     convertMultiple merge net apiKey outputs = Some final \<and>
     convertLoop merge net (length outputs) (startOfRun outputs) = Some loopEnd \<and>
     length (updatedOutputs final) = length outputs \<and>
     (\<forall>i < length outputs. \<exists>before alone.
        convertLoop merge net i (startOfRun outputs) = Some before \<and>
        convertMultiple merge (\<lambda>n. net (length (sent before) + n)) apiKey
          [outputs ! i] = Some alone \<and>
        updatedOutputs final ! i = updatedOutputs alone ! 0 \<and>
        (status (updatedOutputs final ! i) = success \<or>
         status (updatedOutputs final ! i) = failed) \<and>
        (conversionFails net (length (sent before)) (outputs ! i) \<longrightarrow>
           status (updatedOutputs final ! i) = failed \<and>
           (\<exists>msg. error (updatedOutputs final ! i) = Some msg \<and> msg \<noteq> [])) \<and>
        (\<forall>mergedAudioBlob.
           conversionSucceeds merge net (length (sent before)) (outputs ! i) mergedAudioBlob \<longrightarrow>
           updatedOutputs final ! i =
             (outputs ! i)\<lparr>status := success, audioUrl := Some mergedAudioBlob\<rparr>)) \<and>
     toasts final = toasts loopEnd @
       (let successCount = length (filter (\<lambda>out. status out = success) (updatedOutputs final))
        in if 0 < successCount
           then [\<lparr>title = ''Success'',
                  description = ''Generated '' @ decimal successCount @ '' audio file'' @
                    (if 1 < successCount then ''s'' else []) @ '' successfully!'',
                  variant = None\<rparr>]
           else [])"
proof -
  from convertMultiple_result [OF assms, of merge net outputs]
  obtain st final where st:
    "convertLoop merge net (length outputs) (startOfRun outputs) = Some st"
    "length (updatedOutputs st) = length outputs"
    "convertMultiple merge net apiKey outputs = Some final"
    "updatedOutputs final = updatedOutputs st"
    "toasts final = toasts st @
       (let successCount = length (filter (\<lambda>out. status out = success) (updatedOutputs st))
        in if 0 < successCount
           then [\<lparr>title = ''Success'',
                  description = ''Generated '' @ decimal successCount @ '' audio file'' @
                    (if 1 < successCount then ''s'' else []) @ '' successfully!'',
                  variant = None\<rparr>]
           else [])"
    by auto
  have each: "\<exists>before alone.
        convertLoop merge net i (startOfRun outputs) = Some before \<and>
        convertMultiple merge (\<lambda>n. net (length (sent before) + n)) apiKey
          [outputs ! i] = Some alone \<and>
        updatedOutputs final ! i = updatedOutputs alone ! 0 \<and>
        (status (updatedOutputs final ! i) = success \<or>
         status (updatedOutputs final ! i) = failed) \<and>
        (conversionFails net (length (sent before)) (outputs ! i) \<longrightarrow>
           status (updatedOutputs final ! i) = failed \<and>
           (\<exists>msg. error (updatedOutputs final ! i) = Some msg \<and> msg \<noteq> [])) \<and>
        (\<forall>mergedAudioBlob.
           conversionSucceeds merge net (length (sent before)) (outputs ! i) mergedAudioBlob \<longrightarrow>
           updatedOutputs final ! i =
             (outputs ! i)\<lparr>status := success, audioUrl := Some mergedAudioBlob\<rparr>)"
    if i: "i < length outputs" for i
  proof -
    from convertLoop_invariant [of i outputs merge net] i
    obtain before where before:
      "convertLoop merge net i (startOfRun outputs) = Some before"
      "length (updatedOutputs before) = length outputs"
      "updatedOutputs before ! i = outputs ! i" by auto
    let ?net2 = "\<lambda>n. net (length (sent before) + n)"
    let ?st2 = "startOfRun [outputs ! i]"
    have "\<And>n. net (length (sent before) + n) = ?net2 (length (sent ?st2) + n)"
      by (simp add: startOfRun_def)
    moreover have "updatedOutputs before ! i = updatedOutputs ?st2 ! 0"
      using before(3) by (simp add: startOfRun_def)
    ultimately obtain out' ds ts where
      it: "convertItem merge net i before =
         Some (before\<lparr>updatedOutputs := (updatedOutputs before)[i := out'],
                sent := sent before @ ds, toasts := toasts before @ ts\<rparr>)"
      and it2: "convertItem merge ?net2 0 ?st2 =
         Some (?st2\<lparr>updatedOutputs := (updatedOutputs ?st2)[0 := out'],
                 sent := sent ?st2 @ ds, toasts := toasts ?st2 @ ts\<rparr>)"
      and fin: "status out' = success \<or> status out' = failed"
      using convertItem_frame [of net before ?net2 ?st2 i 0 merge] by blast
    let ?after = "before\<lparr>updatedOutputs := (updatedOutputs before)[i := out'],
                sent := sent before @ ds, toasts := toasts before @ ts\<rparr>"
    have after: "convertLoop merge net (Suc i) (startOfRun outputs) = Some ?after"
      using before(1) it by simp
    obtain d where d: "length outputs = Suc i + d"
      using i by (metis Suc_leI le_Suc_ex)
    have "updatedOutputs st ! i = updatedOutputs ?after ! i"
      using convertLoop_stable [OF after, of d st i] st(1) d by simp
    then have final_i: "updatedOutputs final ! i = out'"
      using st(4) before(2) i by simp
    have loop2: "convertLoop merge ?net2 (length [outputs ! i]) ?st2 =
        Some (?st2\<lparr>updatedOutputs := (updatedOutputs ?st2)[0 := out'],
                 sent := sent ?st2 @ ds, toasts := toasts ?st2 @ ts\<rparr>)"
      using it2 by simp
    from convertMultiple_result [OF assms, of merge ?net2 "[outputs ! i]"] loop2
    obtain alone where alone:
      "convertMultiple merge ?net2 apiKey [outputs ! i] = Some alone"
      "updatedOutputs alone = (updatedOutputs ?st2)[0 := out']"
      by auto
    then have alone0: "updatedOutputs alone ! 0 = out'" by (simp add: startOfRun_def)
    have fails: "status out' = failed \<and> (\<exists>msg. error out' = Some msg \<and> msg \<noteq> [])"
      if "conversionFails net (length (sent before)) (outputs ! i)"
    proof -
      from that before(3) have "conversionFails net (length (sent before)) (updatedOutputs before ! i)"
        by simp
      from convertItem_failure [OF this, of merge] before(2) i it
      show ?thesis by auto
    qed
    have succeeds: "out' = (outputs ! i)\<lparr>status := success, audioUrl := Some mergedAudioBlob\<rparr>"
      if "conversionSucceeds merge net (length (sent before)) (outputs ! i) mergedAudioBlob"
      for mergedAudioBlob
    proof -
      from that before(3)
      have "conversionSucceeds merge net (length (sent before)) (updatedOutputs before ! i)
          mergedAudioBlob" by simp
      from convertItem_success [OF this] before(2) i obtain st' where
        "convertItem merge net i before = Some st'"
        "updatedOutputs st' ! i =
           (updatedOutputs before ! i)\<lparr>status := success, audioUrl := Some mergedAudioBlob\<rparr>"
        by auto
      with it before(2,3) i show ?thesis by auto
    qed
    show ?thesis
    proof (intro exI conjI)
      show "convertLoop merge net i (startOfRun outputs) = Some before"
        by (rule before(1))
      show "\<forall>mergedAudioBlob.
           conversionSucceeds merge net (length (sent before)) (outputs ! i) mergedAudioBlob \<longrightarrow>
           updatedOutputs final ! i =
             (outputs ! i)\<lparr>status := success, audioUrl := Some mergedAudioBlob\<rparr>"
        using succeeds by (simp only: final_i) blast
      show "convertMultiple merge ?net2 apiKey [outputs ! i] = Some alone"
        by (rule alone(1))
      show "updatedOutputs final ! i = updatedOutputs alone ! 0"
        by (simp only: final_i alone0)
      show "status (updatedOutputs final ! i) = success \<or> status (updatedOutputs final ! i) = failed"
        using fin by (simp only: final_i)
      show "conversionFails net (length (sent before)) (outputs ! i) \<longrightarrow>
           status (updatedOutputs final ! i) = failed \<and>
           (\<exists>msg. error (updatedOutputs final ! i) = Some msg \<and> msg \<noteq> [])"
        using fails by (simp only: final_i) blast
    qed
  qed
  show ?thesis
  proof (intro exI conjI)
    show "convertMultiple merge net apiKey outputs = Some final" by (rule st(3))
    show "convertLoop merge net (length outputs) (startOfRun outputs) = Some st"
      by (rule st(1))
    show "length (updatedOutputs final) = length outputs" by (simp only: st(4) st(2))
    show "\<forall>i < length outputs. \<exists>before alone.
        convertLoop merge net i (startOfRun outputs) = Some before \<and>
        convertMultiple merge (\<lambda>n. net (length (sent before) + n)) apiKey
          [outputs ! i] = Some alone \<and>
        updatedOutputs final ! i = updatedOutputs alone ! 0 \<and>
        (status (updatedOutputs final ! i) = success \<or>
         status (updatedOutputs final ! i) = failed) \<and>
        (conversionFails net (length (sent before)) (outputs ! i) \<longrightarrow>
           status (updatedOutputs final ! i) = failed \<and>
           (\<exists>msg. error (updatedOutputs final ! i) = Some msg \<and> msg \<noteq> [])) \<and>
        (\<forall>mergedAudioBlob.
           conversionSucceeds merge net (length (sent before)) (outputs ! i) mergedAudioBlob \<longrightarrow>
           updatedOutputs final ! i =
             (outputs ! i)\<lparr>status := success, audioUrl := Some mergedAudioBlob\<rparr>)"
      using each by blast
    show "toasts final = toasts st @
       (let successCount = length (filter (\<lambda>out. status out = success) (updatedOutputs final))
        in if 0 < successCount
           then [\<lparr>title = ''Success'',
                  description = ''Generated '' @ decimal successCount @ '' audio file'' @
                    (if 1 < successCount then ''s'' else []) @ '' successfully!'',
                  variant = None\<rparr>]
           else [])"
      by (simp only: st(5) st(4))
  qed
qed


theorem convertMultiple_isolates_failures_witness:
  "js ''key'' \<noteq> [] \<and>
   conversionFails secondRequestFails 1 ([textJob ''One.'', textJob ''Two.'', textJob ''Three.''] ! 1) \<and>
   conversionSucceeds (mergeBuffers codecThrows) secondRequestFails 0
     ([textJob ''One.'', textJob ''Two.'', textJob ''Three.''] ! 0)
     \<lparr>blobData = [0], blobType = ''audio/mp3''\<rparr> \<and>
   (\<exists>final. convertMultiple (mergeBuffers codecThrows) secondRequestFails (js ''key'')
        [textJob ''One.'', textJob ''Two.'', textJob ''Three.''] = Some final \<and>
      map status (updatedOutputs final) = [success, failed, success] \<and>
      audioUrl (updatedOutputs final ! 0) = Some \<lparr>blobData = [0], blobType = ''audio/mp3''\<rparr> \<and>
      (\<exists>msg. error (updatedOutputs final ! 1) = Some msg \<and> msg \<noteq> []) \<and>
      description (last (toasts final)) = ''Generated 2 audio files successfully!'')"
proof -
  let ?outputs = "[textJob ''One.'', textJob ''Two.'', textJob ''Three.'']"
  let ?merge = "mergeBuffers codecThrows"
  let ?blob = "\<lparr>blobData = [0], blobType = ''audio/mp3''\<rparr>"
  have a: "js ''key'' \<noteq> []" by (simp add: js_def)
  have fails: "conversionFails secondRequestFails 1 (?outputs ! 1)" by code_simp
  have succeeds: "conversionSucceeds ?merge secondRequestFails 0 (?outputs ! 0) ?blob"
    by code_simp
  have sent1: "map_option (\<lambda>st. length (sent st))
      (convertLoop ?merge secondRequestFails 1 (startOfRun ?outputs)) = Some 1"
    by code_simp
  have statuses: "map_option (\<lambda>st. map status (updatedOutputs st))
      (convertMultiple ?merge secondRequestFails (js ''key'') ?outputs) =
      Some [success, failed, success]"
    by code_simp
  have toast: "map_option (\<lambda>st. description (last (toasts st)))
      (convertMultiple ?merge secondRequestFails (js ''key'') ?outputs) =
      Some ''Generated 2 audio files successfully!''"
    by code_simp
  from convertMultiple_isolates_failures [OF a, of ?merge secondRequestFails ?outputs]
  obtain final where final:
    "convertMultiple ?merge secondRequestFails (js ''key'') ?outputs = Some final"
    and each: "\<forall>i < length ?outputs. \<exists>before.
        convertLoop ?merge secondRequestFails i (startOfRun ?outputs) = Some before \<and>
        (conversionFails secondRequestFails (length (sent before)) (?outputs ! i) \<longrightarrow>
           status (updatedOutputs final ! i) = failed \<and>
           (\<exists>msg. error (updatedOutputs final ! i) = Some msg \<and> msg \<noteq> [])) \<and>
        (\<forall>mergedAudioBlob.
           conversionSucceeds ?merge secondRequestFails (length (sent before)) (?outputs ! i)
             mergedAudioBlob \<longrightarrow>
           updatedOutputs final ! i =
             (?outputs ! i)\<lparr>status := success, audioUrl := Some mergedAudioBlob\<rparr>)"
    by blast
  have "(1::nat) < length ?outputs" by simp
  with each obtain before where before:
    "convertLoop ?merge secondRequestFails 1 (startOfRun ?outputs) = Some before"
    "conversionFails secondRequestFails (length (sent before)) (?outputs ! 1) \<longrightarrow>
       status (updatedOutputs final ! 1) = failed \<and>
       (\<exists>msg. error (updatedOutputs final ! 1) = Some msg \<and> msg \<noteq> [])"
    by blast
  from sent1 before(1) have "length (sent before) = 1" by simp
  with before(2) fails have msg: "\<exists>msg. error (updatedOutputs final ! 1) = Some msg \<and> msg \<noteq> []"
    by simp
  have "(0::nat) < length ?outputs" by simp
  with each obtain start where start:
    "convertLoop ?merge secondRequestFails 0 (startOfRun ?outputs) = Some start"
    "\<forall>mergedAudioBlob.
       conversionSucceeds ?merge secondRequestFails (length (sent start)) (?outputs ! 0)
         mergedAudioBlob \<longrightarrow>
       updatedOutputs final ! 0 =
         (?outputs ! 0)\<lparr>status := success, audioUrl := Some mergedAudioBlob\<rparr>"
    by blast
  from start(1) have "length (sent start) = 0" by (auto simp: startOfRun_def)
  with start(2) succeeds
  have "updatedOutputs final ! 0 = (?outputs ! 0)\<lparr>status := success, audioUrl := Some ?blob\<rparr>"
    by simp
  then have url: "audioUrl (updatedOutputs final ! 0) = Some ?blob" by simp
  from statuses final have st: "map status (updatedOutputs final) = [success, failed, success]"
    by simp
  from toast final have t: "description (last (toasts final)) =
      ''Generated 2 audio files successfully!''" by simp
  from msg obtain m where m: "error (updatedOutputs final ! 1) = Some m" "m \<noteq> []" by blast
  show ?thesis
  proof (intro conjI exI)
    show "js ''key'' \<noteq> []" by (rule a)
    show "conversionFails secondRequestFails 1 (?outputs ! 1)" by (rule fails)
    show "conversionSucceeds ?merge secondRequestFails 0 (?outputs ! 0) ?blob" by (rule succeeds)
    show "convertMultiple ?merge secondRequestFails (js ''key'') ?outputs = Some final"
      by (rule final)
    show "map status (updatedOutputs final) = [success, failed, success]" by (rule st)
    show "audioUrl (updatedOutputs final ! 0) = Some ?blob" by (rule url)
    show "error (updatedOutputs final ! 1) = Some m" by (rule m(1))
    show "m \<noteq> []" by (rule m(2))
    show "description (last (toasts final)) = ''Generated 2 audio files successfully!''"
      by (rule t)
  qed
qed

section \<open>Validation\<close>

text \<open>
  Claim C10, as stated: \<open>validateTextForTTS\<close> answers \<open>valid: false\<close> exactly when the input is
  empty or whitespace-only or the whitespace-normalized text is longer than 100,000
  characters, and \<open>valid: true\<close> otherwise, imposing a 100,000-character upper limit on
  pipeline input at the public interface. The last part fails: neither \<open>convertMultiple\<close>
  nor \<open>convertToSpeech\<close> calls \<open>validateTextForTTS\<close>; they test the text for blankness only.
  The text of 50001 sentences \<open>a.\<close> has 100002 characters and \<open>validateTextForTTS\<close> answers
  \<open>valid: false\<close> for it, yet \<open>convertMultiple\<close> (here with the \<open>mergeBuffers\<close> that
  concatenates, and every request answered) converts it and the job ends as \<open>'success'\<close>.
\<close>

theorem validateTextForTTS_limit_counterexample:
  "valid (validateTextForTTS shortSentences) = False \<and>
   map_option (\<lambda>st. map status (updatedOutputs st))
     (convertMultiple mergeBuffersConcat everyRequestSucceeds (js ''key'')
        [jobWithText shortSentences]) = Some [success]"
proof
  show "valid (validateTextForTTS shortSentences) = False"
    using shortSentences_no_whitespace shortSentences_length
    by (cases shortSentences)
      (auto simp: validateTextForTTS_def shortSentences_normalized trim_eq_Nil_iff Let_def)
next
  let ?job = "jobWithText shortSentences"
  let ?start = "startOfRun [?job]"
  have key: "js ''key'' \<noteq> []" by (simp add: js_def)
  from shortSentences_converted obtain mergedAudioBlob where
    "conversionSucceeds mergeBuffersConcat everyRequestSucceeds 0 ?job mergedAudioBlob" by blast
  then have "conversionSucceeds mergeBuffersConcat everyRequestSucceeds (length (sent ?start))
      (updatedOutputs ?start ! 0) mergedAudioBlob"
    by (simp add: startOfRun_def)
  from convertItem_success [OF this] obtain st' where st':
    "convertItem mergeBuffersConcat everyRequestSucceeds 0 ?start = Some st'"
    "length (updatedOutputs st') = 1"
    "status (updatedOutputs st' ! 0) = success"
    by (auto simp: startOfRun_def)
  then have loop: "convertLoop mergeBuffersConcat everyRequestSucceeds (length [?job]) ?start = Some st'"
    by simp
  from st'(2,3) have "map status (updatedOutputs st') = [success]"
    by (cases "updatedOutputs st'") auto
  with convertMultiple_result [OF key, of mergeBuffersConcat everyRequestSucceeds "[?job]"] loop
  show "map_option (\<lambda>st. map status (updatedOutputs st))
     (convertMultiple mergeBuffersConcat everyRequestSucceeds (js ''key'') [?job]) = Some [success]"
    by auto
qed

text \<open>
  Claim C10, amended: \<open>validateTextForTTS\<close> answers \<open>valid: false\<close> exactly when the input is
  empty or consists of whitespace only, or when the whitespace-normalized text has more than
  100,000 characters; in every other case it answers \<open>valid: true\<close>. (The function is a
  check offered to callers; the conversion pipeline does not apply it.)
\<close>

theorem validateTextForTTS_valid_iff:
  "valid (validateTextForTTS text) =
     (\<not> (list_all isWhitespace text \<or> length (removeExtraWhitespaces text) > 100000))"
  by (simp add: validateTextForTTS_def trim_eq_Nil_iff list_all_iff Let_def)

end
